theory Spec2Isabelle
  imports Complex_Main "HOL-Library.Char_ord" "HOL-Library.List_Lexorder" "HOL-Library.Sublist"
begin

section \<open>Conventions of the embedding\<close>

text \<open>
  The development embeds the mesh and link administration of \<^verbatim>\<open>delft3dfmpy/core/dfm.py\<close>:
  the classes \<^verbatim>\<open>Network\<close> (1D spacing, offsets, network nodes) and \<^verbatim>\<open>Links1d2d\<close>
  (link generation, boundary clean-up, link export).

  \<^item> Python floats are modelled as exact reals: chainages, lengths and distances are
    \<^typ>\<open>real\<close>, so rounding errors, infinities and NaN are outside the model. The
    default \<^verbatim>\<open>max_distance = np.inf\<close> is the value \<^term>\<open>None :: real option\<close>.
  \<open>round\<close> is Python 3's built-in: it rounds a tie to the even neighbour.
  \<^item> Every \<^verbatim>\<open>raise\<close> and every failing lookup of the source is a value \<open>Inl e\<close>.
  \<^item> Mutated attributes (\<^verbatim>\<open>self.offsets\<close>, \<^verbatim>\<open>self.nodes1d\<close>, \<^verbatim>\<open>self.faces2d\<close>, the
    running node list) are passed in and returned.
  \<^item> Results of libraries outside the repository (the KD-tree query of scipy, the
    geometric predicates of shapely) enter as arguments.
\<close>

datatype py_error = ValueError | ZeroDivisionError | IndexError | KeyError
  | AttributeError | NameError

section \<open>Spacing of grid points between anchors\<close>

text \<open>Python's \<^verbatim>\<open>round(x)\<close> on a float: nearest integer, ties to even.\<close>

definition py_round :: "real \<Rightarrow> int" where
  "py_round x =
     (let f = \<lfloor>x\<rfloor>; r = x - of_int f
      in if r < 1 / 2 then f else if 1 / 2 < r then f + 1 else if even f then f else f + 1)"

text \<open>
  \<^verbatim>\<open>np.linspace(start, stop, num, endpoint=False)\<close>: \<open>num\<close> points, the step being
  \<open>(stop - start) / num\<close>.
\<close>

definition linspace :: "real \<Rightarrow> real \<Rightarrow> nat \<Rightarrow> real list" where
  "linspace start stop num = map (\<lambda>k. real k * ((stop - start) / real num) + start) [0..<num]"

text \<open>
  The body of \<^verbatim>\<open>Network._generate_1d_spacing\<close>: the loop over
  \<^verbatim>\<open>range(len(anchor_pts) - 1)\<close>, with the list \<open>offsets\<close> it extends.
\<close>

fun spacing_loop :: "real list \<Rightarrow> real \<Rightarrow> nat list \<Rightarrow> real list \<Rightarrow> py_error + real list" where
  "spacing_loop anchor_pts d [] offsets = Inr offsets"
| "spacing_loop anchor_pts d (i # rest) offsets =
     (let section_length = anchor_pts ! (i + 1) - anchor_pts ! i
      in if section_length \<le> 0 then Inl ValueError
         else if d = 0 then Inl ZeroDivisionError
         else let nnodes = max 2 (py_round (section_length / d) + 1)
              in spacing_loop anchor_pts d rest
                   (offsets @ linspace (anchor_pts ! i) (anchor_pts ! (i + 1)) (nat (nnodes - 1))))"

text \<open>
  \<^verbatim>\<open>_generate_1d_spacing(anchor_pts, one_d_mesh_distance)\<close>. After the loop the last
  anchor is appended; \<^verbatim>\<open>anchor_pts[-1]\<close> raises on an empty list.
\<close>

definition generate_1d_spacing :: "real list \<Rightarrow> real \<Rightarrow> py_error + real list" where
  "generate_1d_spacing anchor_pts d =
     (case spacing_loop anchor_pts d [0..<length anchor_pts - 1] [] of
        Inl e \<Rightarrow> Inl e
      | Inr offsets \<Rightarrow>
          (case anchor_pts of [] \<Rightarrow> Inl IndexError | _ \<Rightarrow> Inr (offsets @ [last anchor_pts])))"

text \<open>
  The number of nodes of a segment of length \<open>L\<close> in the words of the specification,
  \<open>max(2, round(L / target_spacing) + 1)\<close>, and the points of segment \<open>i\<close>.
\<close>

definition node_count :: "real \<Rightarrow> real \<Rightarrow> int" where
  "node_count L d = max 2 (py_round (L / d) + 1)"

definition segment :: "real list \<Rightarrow> real \<Rightarrow> nat \<Rightarrow> real list" where
  "segment a d i = linspace (a ! i) (a ! (i + 1)) (nat (node_count (a ! (i + 1) - a ! i) d - 1))"

subsection \<open>Facts about one segment\<close>

lemma node_count_ge: "2 \<le> node_count L d"
  by (simp add: node_count_def)

lemma linspace_hd: "0 < n \<Longrightarrow> hd (linspace x y n) = x"
  by (simp add: linspace_def hd_map upt_conv_Cons)

lemma linspace_bounds:
  assumes "x < y" and "v \<in> set (linspace x y n)"
  shows "x \<le> v \<and> v < y"
proof -
  from assms(2) obtain k where k: "k < n" and v: "v = real k * ((y - x) / real n) + x"
    by (auto simp: linspace_def)
  have n: "0 < real n" using k by simp
  have "0 \<le> real k * ((y - x) / real n)" using assms(1) n by simp
  moreover have "real k * ((y - x) / real n) < y - x"
  proof -
    have "real k * ((y - x) / real n) = (real k / real n) * (y - x)" by simp
    also have "\<dots> < 1 * (y - x)"
      using k n assms(1) by (intro mult_strict_right_mono) simp_all
    finally show ?thesis by simp
  qed
  ultimately show ?thesis using v by simp
qed

lemma linspace_strict:
  assumes "x < y"
  shows "sorted_wrt (<) (linspace x y n)"
proof -
  have "\<And>i j. i < j \<Longrightarrow> j < n \<Longrightarrow> real i * ((y - x) / real n) < real j * ((y - x) / real n)"
    using assms by (intro mult_strict_right_mono) simp_all
  then show ?thesis
    by (simp add: sorted_wrt_iff_nth_less linspace_def)
qed

lemma segment_nonempty: "segment a d i \<noteq> []"
  using node_count_ge [of "a ! (i + 1) - a ! i" d]
  by (simp add: segment_def linspace_def)

lemma segment_hd: "hd (segment a d i) = a ! i"
  using node_count_ge [of "a ! (i + 1) - a ! i" d]
  by (simp add: segment_def linspace_hd)

lemma segment_bounds:
  "a ! i < a ! (i + 1) \<Longrightarrow> v \<in> set (segment a d i) \<Longrightarrow> a ! i \<le> v \<and> v < a ! (i + 1)"
  unfolding segment_def by (rule linspace_bounds)

lemma segment_strict: "a ! i < a ! (i + 1) \<Longrightarrow> sorted_wrt (<) (segment a d i)"
  unfolding segment_def by (rule linspace_strict)

lemma segment_points:
  "segment a d i =
     map (\<lambda>k. a ! i + real k * ((a ! (i + 1) - a ! i) / real_of_int (node_count (a ! (i + 1) - a ! i) d - 1)))
       [0..<nat (node_count (a ! (i + 1) - a ! i) d - 1)]"
  using node_count_ge [of "a ! (i + 1) - a ! i" d]
  by (simp add: segment_def linspace_def add.commute)

subsection \<open>The loop as a concatenation of segments\<close>

lemma spacing_loop_segments:
  assumes "\<forall>i\<in>set js. a ! i < a ! (i + 1)" and "d \<noteq> 0"
  shows "spacing_loop a d js acc = Inr (acc @ concat (map (segment a d) js))"
  using assms
  by (induction js arbitrary: acc) (simp_all add: segment_def node_count_def Let_def)

lemma spacing_loop_gaps:
  "spacing_loop a d js acc = Inr r \<Longrightarrow>
     (\<forall>i\<in>set js. a ! i < a ! (i + 1)) \<and> (js \<noteq> [] \<longrightarrow> d \<noteq> 0)"
proof (induction js arbitrary: acc)
  case Nil
  then show ?case by simp
next
  case (Cons j js)
  from Cons.prems have gap: "a ! j < a ! (j + 1)" and d: "d \<noteq> 0"
    by (auto simp: Let_def split: if_splits)
  from Cons.prems gap d obtain acc' where "spacing_loop a d js acc' = Inr r"
    by (auto simp: Let_def split: if_splits)
  from Cons.IH [OF this] gap d show ?case by simp
qed

lemma sorted_wrt_gaps:
  assumes "sorted_wrt (<) (a :: real list)" and "Suc i < length a"
  shows "a ! i < a ! Suc i"
  using assms by (simp add: sorted_wrt_iff_nth_less)

lemma gaps_sorted_wrt:
  assumes "\<forall>i\<in>set [0..<length a - 1]. (a :: real list) ! i < a ! (i + 1)"
  shows "sorted_wrt (<) a"
proof -
  have "\<And>i. Suc i < length a \<Longrightarrow> a ! i < a ! Suc i"
    using assms by auto
  then show ?thesis
    by (simp add: sorted_wrt_iff_nth_Suc_transp)
qed

lemma generate_1d_spacing_segments:
  assumes "sorted_wrt (<) a" and "a \<noteq> []" and "d \<noteq> 0"
  shows "generate_1d_spacing a d =
           Inr (concat (map (segment a d) [0..<length a - 1]) @ [last a])"
proof -
  have "\<forall>i\<in>set [0..<length a - 1]. a ! i < a ! (i + 1)"
    using assms(1) by (auto intro: sorted_wrt_gaps)
  then have "spacing_loop a d [0..<length a - 1] [] =
               Inr (concat (map (segment a d) [0..<length a - 1]))"
    using spacing_loop_segments [of "[0..<length a - 1]" a d "[]"] assms(3) by simp
  then show ?thesis
    using assms(2) by (simp add: generate_1d_spacing_def split: list.splits)
qed

text \<open>A successful run saw only positive gaps: the anchors were strictly increasing.\<close>

lemma generate_1d_spacing_Inr_sorted:
  assumes "generate_1d_spacing a d = Inr offs"
  shows "sorted_wrt (<) a \<and> a \<noteq> []"
proof -
  from assms obtain r where r: "spacing_loop a d [0..<length a - 1] [] = Inr r" and ne: "a \<noteq> []"
    by (auto simp: generate_1d_spacing_def split: sum.splits list.splits)
  from spacing_loop_gaps [OF r] have "\<forall>i\<in>set [0..<length a - 1]. a ! i < a ! (i + 1)"
    by auto
  then show ?thesis using ne gaps_sorted_wrt by blast
qed

lemma generate_1d_spacing_Inr_multi:
  assumes "generate_1d_spacing a d = Inr offs" and "2 \<le> length a"
  shows "d \<noteq> 0"
proof -
  from assms obtain r where r: "spacing_loop a d [0..<length a - 1] [] = Inr r"
    by (auto simp: generate_1d_spacing_def split: sum.splits list.splits)
  have "[0..<length a - 1] \<noteq> []" using assms(2) by simp
  with spacing_loop_gaps [OF r] show ?thesis by blast
qed

text \<open>The tail of the output from segment \<open>j\<close> on.\<close>

lemma spacing_tail:
  assumes "sorted_wrt (<) a" and "a \<noteq> []"
  shows "j \<le> length a - 1 \<Longrightarrow>
     sorted_wrt (<) (concat (map (segment a d) [j..<length a - 1]) @ [last a]) \<and>
     hd (concat (map (segment a d) [j..<length a - 1]) @ [last a]) = a ! j \<and>
     (\<forall>v\<in>set (concat (map (segment a d) [j..<length a - 1]) @ [last a]). a ! j \<le> v)"
proof (induction "length a - 1 - j" arbitrary: j)
  case 0
  then have "j = length a - 1" by simp
  then show ?case using assms(2) by (simp add: last_conv_nth)
next
  case (Suc m)
  then have j: "Suc j < length a" and j': "Suc j \<le> length a - 1" and m: "m = length a - 1 - Suc j"
    by simp_all
  let ?rest = "concat (map (segment a d) [Suc j..<length a - 1]) @ [last a]"
  have ih: "sorted_wrt (<) ?rest" "hd ?rest = a ! Suc j" "\<forall>v\<in>set ?rest. a ! Suc j \<le> v"
    using Suc.hyps(1) [OF m j'] by simp_all
  have gap: "a ! j < a ! (j + 1)" using sorted_wrt_gaps [OF assms(1) j] by simp
  have split: "concat (map (segment a d) [j..<length a - 1]) @ [last a] = segment a d j @ ?rest"
    using j by (simp add: upt_conv_Cons)
  have cross: "\<forall>u\<in>set (segment a d j). \<forall>v\<in>set ?rest. u < v"
  proof (intro ballI)
    fix u v assume "u \<in> set (segment a d j)" "v \<in> set ?rest"
    then have "u < a ! (j + 1)" "a ! Suc j \<le> v"
      using segment_bounds [OF gap] ih(3) by blast+
    then show "u < v" by simp
  qed
  have low: "\<forall>v\<in>set (segment a d j @ ?rest). a ! j \<le> v"
  proof
    fix v assume "v \<in> set (segment a d j @ ?rest)"
    then consider "v \<in> set (segment a d j)" | "v \<in> set ?rest" by auto
    then show "a ! j \<le> v"
    proof cases
      case 1 then show ?thesis using segment_bounds [OF gap] by blast
    next
      case 2 then have "a ! Suc j \<le> v" using ih(3) by blast
      then show ?thesis using gap by simp
    qed
  qed
  have "sorted_wrt (<) (segment a d j @ ?rest)"
    using segment_strict [OF gap] ih(1) cross by (simp only: sorted_wrt_append) blast
  moreover have "hd (segment a d j @ ?rest) = a ! j"
    using segment_nonempty [of a d j] segment_hd [of a d j] by simp
  ultimately show ?case using low unfolding split by blast
qed

text \<open>Every anchor is a grid point of the output.\<close>

lemma anchors_in_segments:
  assumes "i < length a"
  shows "a ! i \<in> set (concat (map (segment a d) [0..<length a - 1]) @ [last a])"
proof (cases "i = length a - 1")
  case True
  moreover have "a \<noteq> []" using assms by auto
  ultimately show ?thesis by (simp add: last_conv_nth)
next
  case False
  then have i: "i < length a - 1" using assms by simp
  have "a ! i \<in> set (segment a d i)"
    using segment_nonempty [of a d i] segment_hd [of a d i] hd_in_set by metis
  then show ?thesis using i by auto
qed

lemma generate_1d_spacing_anchors:
  assumes "generate_1d_spacing a d = Inr offs"
  shows "set a \<subseteq> set offs"
proof (cases "2 \<le> length a")
  case True
  have s: "sorted_wrt (<) a" "a \<noteq> []" using generate_1d_spacing_Inr_sorted [OF assms] by simp_all
  have d: "d \<noteq> 0" using generate_1d_spacing_Inr_multi [OF assms True] .
  have offs: "offs = concat (map (segment a d) [0..<length a - 1]) @ [last a]"
    using generate_1d_spacing_segments [OF s d] assms by simp
  show ?thesis
  proof
    fix x assume "x \<in> set a"
    then obtain i where "i < length a" and "x = a ! i"
      by (auto simp: in_set_conv_nth)
    then show "x \<in> set offs"
      using anchors_in_segments [of i a d] offs by simp
  qed
next
  case False
  then have "length a \<le> 1" by simp
  then show ?thesis
    using assms by (cases a) (auto simp: generate_1d_spacing_def)
qed

section \<open>Offsets per branch\<close>

text \<open>
  A branch row of \<^verbatim>\<open>Network.branches\<close> (its index, the coordinates of its line and the
  length of the line), a row of the structures data frame (its index, \<^verbatim>\<open>branchid\<close>,
  \<^verbatim>\<open>chainage\<close>), and what \<^verbatim>\<open>generate_offsets\<close> writes to the logger.
\<close>

record branch =
  Index :: string
  coords :: "(real \<times> real) list"
  geom_length :: real

record structure_row =
  struct_id :: string
  branchid :: string
  chainage :: real

datatype log_event =
    WarnUnlinked
  | WarnSameLocation "string list"
  | InfoAddedNodes string "real list" "real list"

text \<open>
  The list \<open>in_range\<close> of \<^verbatim>\<open>generate_offsets\<close>: for every window \<open>(lower, upper)\<close>, whether
  some offset lies strictly inside. \<open>index_False\<close> is \<^verbatim>\<open>in_range.index(False)\<close>; \<open>midpoints\<close>
  are the anchors the loop can add, used to measure its progress.
\<close>

definition in_range :: "real list \<Rightarrow> real list \<Rightarrow> real list \<Rightarrow> bool list" where
  "in_range offsets lower_limits upper_limits =
     map (\<lambda>(lower, upper). list_ex (\<lambda>off. lower < off \<and> off < upper) offsets)
       (zip lower_limits upper_limits)"

definition index_False :: "bool list \<Rightarrow> nat" where
  "index_False bs = length (takeWhile (\<lambda>b. b) bs)"

definition midpoints :: "real list \<Rightarrow> real list \<Rightarrow> real list" where
  "midpoints lower_limits upper_limits =
     map (\<lambda>(lower, upper). (lower + upper) / 2) (zip lower_limits upper_limits)"

lemma index_False_less: "\<not> list_all (\<lambda>b. b) bs \<Longrightarrow> index_False bs < length bs"
  unfolding index_False_def by (induction bs) auto

lemma index_False_nth: "\<not> list_all (\<lambda>b. b) bs \<Longrightarrow> \<not> bs ! index_False bs"
  unfolding index_False_def by (induction bs) auto

lemma sort_spacing_fresh:
  assumes "generate_1d_spacing (sort (anchor_pts @ [m])) d = Inr offs"
  shows "m \<notin> set anchor_pts"
proof -
  have "sorted_wrt (<) (sort (anchor_pts @ [m]))"
    using generate_1d_spacing_Inr_sorted [OF assms] by simp
  then have "distinct (sort (anchor_pts @ [m]))"
    using strict_sorted_iff by blast
  then show ?thesis by simp
qed

text \<open>
  The \<^verbatim>\<open>while not all(in_range)\<close> loop: the midpoint of the first window without an
  offset becomes an anchor, the anchors are sorted and the spacing is computed again.
  The loop ends: an anchor that is added twice makes \<^verbatim>\<open>_generate_1d_spacing\<close> raise (a
  section of length zero), so every round that goes on has added a new midpoint.
\<close>

function coverage_loop ::
  "real list \<Rightarrow> real \<Rightarrow> real list \<Rightarrow> real list \<Rightarrow> real list \<Rightarrow> py_error + real list \<times> real list"
where
  "coverage_loop anchor_pts d lower_limits upper_limits offsets =
     (if list_all (\<lambda>b. b) (in_range offsets lower_limits upper_limits) then Inr (anchor_pts, offsets)
      else
        (let i = index_False (in_range offsets lower_limits upper_limits);
             anchor_pts' = sort (anchor_pts @ [(lower_limits ! i + upper_limits ! i) / 2])
         in case generate_1d_spacing anchor_pts' d of
              Inl e \<Rightarrow> Inl e
            | Inr offsets' \<Rightarrow> coverage_loop anchor_pts' d lower_limits upper_limits offsets'))"
  by pat_completeness auto
termination
proof (relation "measure (\<lambda>(anchor_pts, d, lower_limits, upper_limits, offsets).
         card (set (midpoints lower_limits upper_limits) - set anchor_pts))", goal_cases)
  case 1
  show ?case by simp
next
  case (2 anchor_pts d lower_limits upper_limits offsets i anchor_pts' offsets')
  let ?ir = "in_range offsets lower_limits upper_limits"
  let ?m = "(lower_limits ! i + upper_limits ! i) / 2"
  let ?M = "set (midpoints lower_limits upper_limits)"
  have i: "i < length (zip lower_limits upper_limits)"
    using index_False_less [OF 2(1)] 2(2) by (simp add: in_range_def)
  then have "midpoints lower_limits upper_limits ! i = ?m"
    by (simp add: midpoints_def)
  moreover have "i < length (midpoints lower_limits upper_limits)"
    using i by (simp add: midpoints_def)
  ultimately have mem: "?m \<in> ?M"
    using nth_mem by metis
  have fresh: "?m \<notin> set anchor_pts"
    using sort_spacing_fresh 2(3,4) by blast
  have "?M - set anchor_pts' = (?M - set anchor_pts) - {?m}"
    using 2(3) by auto
  moreover have "?m \<in> ?M - set anchor_pts" using mem fresh by simp
  ultimately have "card (?M - set anchor_pts') < card (?M - set anchor_pts)"
    using card_Diff1_less [of "?M - set anchor_pts" ?m] by simp
  then show ?case by simp
qed

declare coverage_loop.simps [simp del]

text \<open>
  The body of the loop over the groups, from \<^verbatim>\<open>anchor_pts = [0.0, branch.length]\<close> on:
  \<open>limits\<close> are the sorted chainages of the structures of the branch, without
  repetition; \<^verbatim>\<open>any(limits)\<close> holds when one of them is not zero. It returns the anchors
  with the offsets.
\<close>

definition branch_offsets :: "real \<Rightarrow> real \<Rightarrow> real list \<Rightarrow> py_error + real list \<times> real list" where
  "branch_offsets branch_length d limits =
     (let anchor_pts = [0, branch_length]
      in case generate_1d_spacing anchor_pts d of
           Inl e \<Rightarrow> Inl e
         | Inr offsets \<Rightarrow>
             if list_ex (\<lambda>l. l \<noteq> 0) limits
             then (let upper_limits = limits @ [branch_length + 1 / 10];
                       lower_limits = [- (1 / 10)] @ limits
                   in coverage_loop anchor_pts d lower_limits upper_limits offsets)
             else Inr (anchor_pts, offsets))"

text \<open>
  \<^verbatim>\<open>Network.generate_offsets(one_d_mesh_distance, structures)\<close> on the dictionary
  \<^verbatim>\<open>self.offsets\<close>: first the loop over all branches (\<open>initial_offsets\<close>), then, when
  \<open>structures\<close> is not \<^verbatim>\<open>None\<close>, the rows selected by the mask \<open>idx\<close> are grouped by
  \<^verbatim>\<open>branchid\<close> (the keys sorted, as \<^verbatim>\<open>groupby\<close> does) and \<open>group_loop\<close> runs over the groups.
  The mask is \<^verbatim>\<open>structures['branchid'] == ''\<close>, and \<^verbatim>\<open>ids_offsets.loc[idx, :]\<close> keeps the rows
  where it holds. \<^verbatim>\<open>self.branches.at[branch_id, 'geometry']\<close> raises for an id that is not
  a branch.
\<close>

type_synonym offsets_dict = "string \<rightharpoonup> real list"

fun initial_offsets :: "branch list \<Rightarrow> real \<Rightarrow> offsets_dict \<Rightarrow> py_error + offsets_dict" where
  "initial_offsets [] d offsets_dict = Inr offsets_dict"
| "initial_offsets (b # bs) d offsets_dict =
     (case generate_1d_spacing [0, geom_length b] d of
        Inl e \<Rightarrow> Inl e
      | Inr offsets \<Rightarrow> initial_offsets bs d (offsets_dict(Index b \<mapsto> offsets)))"

fun group_loop ::
  "branch list \<Rightarrow> real \<Rightarrow> structure_row list \<Rightarrow> string list \<Rightarrow> offsets_dict \<times> log_event list
     \<Rightarrow> py_error + offsets_dict \<times> log_event list"
where
  "group_loop branches d ids_offsets [] st = Inr st"
| "group_loop branches d ids_offsets (branch_id # keys) (offsets_dict, logs) =
     (let group = filter (\<lambda>s. branchid s = branch_id) ids_offsets;
          same = filter (\<lambda>s. 1 < count_list (map chainage group) (chainage s)) group;
          logs1 = (if same \<noteq> [] then logs @ [WarnSameLocation (map struct_id same)] else logs)
      in case find (\<lambda>b. Index b = branch_id) branches of
           None \<Rightarrow> Inl KeyError
         | Some branch \<Rightarrow>
             (let limits = sort (remdups (map chainage group))
              in case branch_offsets (geom_length branch) d limits of
                   Inl e \<Rightarrow> Inl e
                 | Inr (anchor_pts, offsets) \<Rightarrow>
                     group_loop branches d ids_offsets keys
                       (offsets_dict(branch_id \<mapsto> offsets),
                        if list_ex (\<lambda>l. l \<noteq> 0) limits \<and> 2 < length anchor_pts
                        then logs1 @ [InfoAddedNodes branch_id anchor_pts limits] else logs1)))"

definition generate_offsets ::
  "branch list \<Rightarrow> real \<Rightarrow> structure_row list option \<Rightarrow> offsets_dict
     \<Rightarrow> py_error + offsets_dict \<times> log_event list"
where
  "generate_offsets branches d structures offsets_dict =
     (case initial_offsets branches d offsets_dict of
        Inl e \<Rightarrow> Inl e
      | Inr offsets_dict' \<Rightarrow>
          (case structures of
             None \<Rightarrow> Inr (offsets_dict', [])
           | Some rows \<Rightarrow>
               (let idx = map (\<lambda>s. branchid s = '''') rows;
                    logs = (if list_ex (\<lambda>b. b) idx then [WarnUnlinked] else []);
                    ids_offsets = map fst (filter snd (zip rows idx))
                in group_loop branches d ids_offsets (sort (remdups (map branchid ids_offsets)))
                     (offsets_dict', logs))))"

subsection \<open>Properties of the coverage loop and of the offsets\<close>

lemma coverage_loop_covered:
  "coverage_loop anchor_pts d lower_limits upper_limits offsets = Inr (a', o') \<Longrightarrow>
     list_all (\<lambda>b. b) (in_range o' lower_limits upper_limits)"
proof (induction anchor_pts d lower_limits upper_limits offsets rule: coverage_loop.induct)
  case (1 anchor_pts d lower_limits upper_limits offsets)
  show ?case
  proof (cases "list_all (\<lambda>b. b) (in_range offsets lower_limits upper_limits)")
    case True
    then show ?thesis
      using "1.prems" by (simp add: coverage_loop.simps [of anchor_pts])
  next
    case False
    let ?i = "index_False (in_range offsets lower_limits upper_limits)"
    let ?a = "sort (anchor_pts @ [(lower_limits ! ?i + upper_limits ! ?i) / 2])"
    from False "1.prems" obtain offsets' where
      sp: "generate_1d_spacing ?a d = Inr offsets'" and
      rec: "coverage_loop ?a d lower_limits upper_limits offsets' = Inr (a', o')"
      by (simp add: coverage_loop.simps [of anchor_pts] Let_def split: sum.splits)
    show ?thesis
      using "1.IH" [OF False refl refl sp rec] .
  qed
qed

text \<open>The anchors only grow, and the offsets returned are the spacing of the anchors returned.\<close>

lemma coverage_loop_anchors:
  "coverage_loop anchor_pts d lower_limits upper_limits offsets = Inr (a', o') \<Longrightarrow>
   generate_1d_spacing anchor_pts d = Inr offsets \<Longrightarrow>
     generate_1d_spacing a' d = Inr o' \<and> set anchor_pts \<subseteq> set a'"
proof (induction anchor_pts d lower_limits upper_limits offsets rule: coverage_loop.induct)
  case (1 anchor_pts d lower_limits upper_limits offsets)
  show ?case
  proof (cases "list_all (\<lambda>b. b) (in_range offsets lower_limits upper_limits)")
    case True
    then show ?thesis
      using "1.prems" by (simp add: coverage_loop.simps [of anchor_pts])
  next
    case False
    let ?i = "index_False (in_range offsets lower_limits upper_limits)"
    let ?a = "sort (anchor_pts @ [(lower_limits ! ?i + upper_limits ! ?i) / 2])"
    from False "1.prems"(1) obtain offsets' where
      sp: "generate_1d_spacing ?a d = Inr offsets'" and
      rec: "coverage_loop ?a d lower_limits upper_limits offsets' = Inr (a', o')"
      by (simp add: coverage_loop.simps [of anchor_pts] Let_def split: sum.splits)
    have "generate_1d_spacing a' d = Inr o' \<and> set ?a \<subseteq> set a'"
      using "1.IH" [OF False refl refl sp rec sp] .
    then show ?thesis by auto
  qed
qed

text \<open>With non-empty windows the loop returns, and every window holds an offset.\<close>

lemma coverage_loop_total:
  "d \<noteq> 0 \<Longrightarrow>
   \<forall>i < length (zip lower_limits upper_limits). lower_limits ! i < upper_limits ! i \<Longrightarrow>
   sorted_wrt (<) anchor_pts \<Longrightarrow> anchor_pts \<noteq> [] \<Longrightarrow> set anchor_pts \<subseteq> set offsets \<Longrightarrow>
     \<exists>a' o'. coverage_loop anchor_pts d lower_limits upper_limits offsets = Inr (a', o')"
proof (induction anchor_pts d lower_limits upper_limits offsets rule: coverage_loop.induct)
  case (1 anchor_pts d lower_limits upper_limits offsets)
  note d = "1.prems"(1) and wins = "1.prems"(2)
  show ?case
  proof (cases "list_all (\<lambda>b. b) (in_range offsets lower_limits upper_limits)")
    case True
    then show ?thesis
      by (simp add: coverage_loop.simps [of anchor_pts])
  next
    case False
    let ?ir = "in_range offsets lower_limits upper_limits"
    let ?i = "index_False ?ir"
    let ?m = "(lower_limits ! ?i + upper_limits ! ?i) / 2"
    let ?a = "sort (anchor_pts @ [?m])"
    have i: "?i < length (zip lower_limits upper_limits)"
      using index_False_less [OF False] by (simp add: in_range_def)
    have win: "lower_limits ! ?i < upper_limits ! ?i"
      using wins [rule_format, OF i] .
    have "\<not> ?ir ! ?i" using index_False_nth [OF False] .
    then have unc: "\<not> list_ex (\<lambda>off. lower_limits ! ?i < off \<and> off < upper_limits ! ?i) offsets"
      using i by (simp add: in_range_def)
    have "lower_limits ! ?i < ?m \<and> ?m < upper_limits ! ?i"
      using win by (simp add: field_simps)
    then have "?m \<notin> set offsets"
      using unc by (auto simp: list_ex_iff)
    then have fresh: "?m \<notin> set anchor_pts"
      using "1.prems"(5) by blast
    have "distinct anchor_pts" using "1.prems"(3) strict_sorted_iff by blast
    then have "distinct ?a" using fresh by simp
    then have sa: "sorted_wrt (<) ?a"
      using strict_sorted_iff [of ?a] by simp
    have ne: "?a \<noteq> []"
      by (metis Nil_is_append_conv list.distinct(1) set_empty set_sort)
    obtain offsets' where sp: "generate_1d_spacing ?a d = Inr offsets'"
      using generate_1d_spacing_segments [OF sa ne d] by blast
    have sub: "set ?a \<subseteq> set offsets'"
      using generate_1d_spacing_anchors [OF sp] .
    obtain a' o' where "coverage_loop ?a d lower_limits upper_limits offsets' = Inr (a', o')"
      using "1.IH" [OF False refl refl sp d wins sa ne sub] by blast
    then show ?thesis
      using False sp by (simp add: coverage_loop.simps [of anchor_pts] Let_def)
  qed
qed

lemma branch_offsets_ends:
  assumes "branch_offsets L d limits = Inr (a', o')"
  shows "generate_1d_spacing a' d = Inr o' \<and> 0 \<in> set o' \<and> L \<in> set o'"
proof -
  from assms obtain offs where sp: "generate_1d_spacing [0, L] d = Inr offs"
    by (auto simp: branch_offsets_def Let_def split: sum.splits)
  have "generate_1d_spacing a' d = Inr o' \<and> set [0, L] \<subseteq> set a'"
  proof (cases "list_ex (\<lambda>l. l \<noteq> 0) limits")
    case True
    then have "coverage_loop [0, L] d ([- (1 / 10)] @ limits) (limits @ [L + 1 / 10]) offs = Inr (a', o')"
      using assms sp by (simp add: branch_offsets_def)
    from coverage_loop_anchors [OF this sp] show ?thesis .
  next
    case False
    then show ?thesis using assms sp by (simp add: branch_offsets_def)
  qed
  moreover from this have "set a' \<subseteq> set o'"
    using generate_1d_spacing_anchors by blast
  ultimately show ?thesis by auto
qed

definition ends_present :: "offsets_dict \<Rightarrow> branch \<Rightarrow> bool" where
  "ends_present dict b =
     (case dict (Index b) of None \<Rightarrow> False
      | Some offsets \<Rightarrow> 0 \<in> set offsets \<and> geom_length b \<in> set offsets)"

lemma initial_offsets_ends:
  "initial_offsets bs d dict = Inr r \<Longrightarrow> distinct (map Index bs) \<Longrightarrow>
     (\<forall>b\<in>set bs. ends_present r b) \<and> (\<forall>k. k \<notin> Index ` set bs \<longrightarrow> r k = dict k)"
proof (induction bs arbitrary: dict)
  case Nil
  then show ?case by simp
next
  case (Cons b bs)
  from Cons.prems(1) obtain offs where
    sp: "generate_1d_spacing [0, geom_length b] d = Inr offs" and
    rec: "initial_offsets bs d (dict(Index b \<mapsto> offs)) = Inr r"
    by (auto split: sum.splits)
  have dist: "distinct (map Index bs)" and fresh: "Index b \<notin> Index ` set bs"
    using Cons.prems(2) by simp_all
  from Cons.IH [OF rec dist]
  have ih: "\<forall>b\<in>set bs. ends_present r b"
           "\<forall>k. k \<notin> Index ` set bs \<longrightarrow> r k = (dict(Index b \<mapsto> offs)) k"
    by simp_all
  have "r (Index b) = Some offs" using ih(2) fresh by simp
  moreover have "0 \<in> set offs" "geom_length b \<in> set offs"
    using generate_1d_spacing_anchors [OF sp] by simp_all
  ultimately have "ends_present r b" by (simp add: ends_present_def)
  moreover have "\<forall>k. k \<notin> Index ` set (b # bs) \<longrightarrow> r k = dict k"
    using ih(2) by auto
  ultimately show ?case using ih(1) by simp
qed

lemma initial_offsets_total:
  "d \<noteq> 0 \<Longrightarrow> \<forall>b\<in>set bs. 0 < geom_length b \<Longrightarrow> \<exists>r. initial_offsets bs d dict = Inr r"
proof (induction bs arbitrary: dict)
  case Nil
  then show ?case by simp
next
  case (Cons b bs)
  have "sorted_wrt (<) [0, geom_length b]" using Cons.prems(2) by simp
  then obtain offs where sp: "generate_1d_spacing [0, geom_length b] d = Inr offs"
    using generate_1d_spacing_segments [of "[0, geom_length b]" d] Cons.prems(1) by auto
  have "\<forall>b\<in>set bs. 0 < geom_length b" using Cons.prems(2) by simp
  from Cons.IH [OF Cons.prems(1) this, of "dict(Index b \<mapsto> offs)"]
  obtain r where "initial_offsets bs d (dict(Index b \<mapsto> offs)) = Inr r" by blast
  then show ?case using sp by simp
qed

lemma group_loop_ends:
  "group_loop branches d rows keys (dict, logs) = Inr (r, logs') \<Longrightarrow>
   distinct (map Index branches) \<Longrightarrow> \<forall>b\<in>set branches. ends_present dict b \<Longrightarrow>
     \<forall>b\<in>set branches. ends_present r b"
proof (induction keys arbitrary: dict logs)
  case Nil
  then show ?case by simp
next
  case (Cons branch_id keys)
  let ?group = "filter (\<lambda>s. branchid s = branch_id) rows"
  let ?limits = "sort (remdups (map chainage ?group))"
  from Cons.prems(1) obtain br where
    f: "find (\<lambda>b. Index b = branch_id) branches = Some br"
    by (auto simp: Let_def split: option.splits)
  from Cons.prems(1) f obtain a' o' where
    bo: "branch_offsets (geom_length br) d ?limits = Inr (a', o')"
    by (auto simp: Let_def split: sum.splits)
  from Cons.prems(1) f bo obtain logs2 where
    rec: "group_loop branches d rows keys (dict(branch_id \<mapsto> o'), logs2) = Inr (r, logs')"
    by (auto simp: Let_def)
  have br: "br \<in> set branches" "Index br = branch_id"
    using f by (auto simp: find_Some_iff)
  have ends: "0 \<in> set o'" "geom_length br \<in> set o'"
    using branch_offsets_ends [OF bo] by simp_all
  have "\<forall>b\<in>set branches. ends_present (dict(branch_id \<mapsto> o')) b"
  proof
    fix b assume b: "b \<in> set branches"
    show "ends_present (dict(branch_id \<mapsto> o')) b"
    proof (cases "Index b = branch_id")
      case True
      then have "b = br"
        using b br Cons.prems(2) by (metis distinct_map inj_onD)
      then show ?thesis using ends br(2) by (simp add: ends_present_def)
    next
      case False
      then show ?thesis using Cons.prems(3) b by (simp add: ends_present_def)
    qed
  qed
  from Cons.IH [OF rec Cons.prems(2) this] show ?case .
qed

lemma generate_offsets_ends:
  assumes "generate_offsets branches d structures dict = Inr (r, logs)"
    and "distinct (map Index branches)" and "b \<in> set branches"
  shows "ends_present r b"
proof -
  from assms(1) obtain r0 where init: "initial_offsets branches d dict = Inr r0"
    by (auto simp: generate_offsets_def split: sum.splits)
  have r0: "\<forall>b\<in>set branches. ends_present r0 b"
    using initial_offsets_ends [OF init assms(2)] by simp
  show ?thesis
  proof (cases structures)
    case None
    then show ?thesis using assms(1,3) init r0 by (simp add: generate_offsets_def)
  next
    case (Some rows)
    then obtain rows' keys logs0 where
      "group_loop branches d rows' keys (r0, logs0) = Inr (r, logs)"
      using assms(1) init by (auto simp: generate_offsets_def Let_def)
    from group_loop_ends [OF this assms(2) r0] assms(3) show ?thesis by blast
  qed
qed

section \<open>Claims about the spacing\<close>

lemma spacing_example: "generate_1d_spacing [0, 100] 40 = Inr [0, 50, 100]"
  by code_simp

text \<open>
  Claim C3, as the code has it. For strictly increasing anchors and a spacing other than
  zero, \<^verbatim>\<open>_generate_1d_spacing\<close> returns the segments one after the other and then the
  last anchor. Segment \<open>i\<close>, with gap \<open>L\<close>, holds \<open>node_count L d - 1\<close> points, where
  \<open>node_count L d = max 2 (round (L / d) + 1)\<close> with Python's \<open>round\<close>; point \<open>k\<close> is the
  left anchor plus \<open>k\<close> steps of \<open>L / (node_count L d - 1)\<close>, and every point lies before
  the right anchor. For the anchors \<open>[0, 100]\<close> and the spacing \<open>40\<close> the result is
  \<open>[0, 50, 100]\<close>: \<open>round (2.5)\<close> is \<open>2\<close>, so the segment has three nodes.
\<close>

theorem spacing_segment_nodes:
  "(sorted_wrt (<) a \<and> a \<noteq> [] \<and> d \<noteq> 0 \<longrightarrow>
     generate_1d_spacing a d = Inr (concat (map (segment a d) [0..<length a - 1]) @ [last a]) \<and>
     (\<forall>i<length a - 1.
        int (length (segment a d i)) = node_count (a ! (i + 1) - a ! i) d - 1 \<and>
        (\<forall>k<length (segment a d i).
           segment a d i ! k =
             a ! i + real k * ((a ! (i + 1) - a ! i) / real_of_int (node_count (a ! (i + 1) - a ! i) d - 1))) \<and>
        (\<forall>v\<in>set (segment a d i). v < a ! (i + 1)))) \<and>
   generate_1d_spacing [0, 100] 40 = Inr [0, 50, 100]"
proof (intro impI conjI allI)
  assume h: "sorted_wrt (<) a \<and> a \<noteq> [] \<and> d \<noteq> 0"
  then show "generate_1d_spacing a d = Inr (concat (map (segment a d) [0..<length a - 1]) @ [last a])"
    using generate_1d_spacing_segments by blast
next
  fix i assume "i < length a - 1"
  show "int (length (segment a d i)) = node_count (a ! (i + 1) - a ! i) d - 1"
    using node_count_ge [of "a ! (i + 1) - a ! i" d] by (simp add: segment_def linspace_def)
next
  fix i k assume "i < length a - 1" and k: "k < length (segment a d i)"
  show "segment a d i ! k =
     a ! i + real k * ((a ! (i + 1) - a ! i) / real_of_int (node_count (a ! (i + 1) - a ! i) d - 1))"
    using k by (simp add: segment_points)
next
  fix i assume h: "sorted_wrt (<) a \<and> a \<noteq> [] \<and> d \<noteq> 0" and i: "i < length a - 1"
  then have "a ! i < a ! (i + 1)" using sorted_wrt_gaps [of a i] by simp
  then show "\<forall>v\<in>set (segment a d i). v < a ! (i + 1)"
    using segment_bounds by blast
next
  show "generate_1d_spacing [0, 100] 40 = Inr [0, 50, 100]"
    by (rule spacing_example)
qed

theorem spacing_segment_nodes_witness:
  "generate_1d_spacing [0, 10, 100] 40 = Inr [0, 10, 55, 100] \<and> node_count (100 - 10) 40 = 3"
proof -
  have seg0: "segment [0, 10, 100] 40 0 = [0]" by code_simp
  have seg1: "segment [0, 10, 100] 40 1 = [10, 55]" by code_simp
  have h: "sorted_wrt (<) [0, 10, 100 :: real] \<and> [0, 10, 100 :: real] \<noteq> [] \<and> (40 :: real) \<noteq> 0"
    by simp
  have "[0..<length [0, 10, 100 :: real] - 1] = [0, 1]" by code_simp
  then have "generate_1d_spacing [0, 10, 100] 40 = Inr [0, 10, 55, 100]"
    using spacing_segment_nodes [of "[0, 10, 100]" 40] h seg0 seg1 by simp
  moreover have "node_count (100 - 10) 40 = 3" by code_simp
  ultimately show ?thesis by simp
qed

text \<open>
  The example of the claim as it is written: four offsets \<open>[0, 33.33, 66.67, 100]\<close>, since
  \<open>round (100 / 40) + 1 = 4\<close>. The code returns three.
\<close>

theorem spacing_example_counterexample:
  "generate_1d_spacing [0, 100] 40 = Inr [0, 50, 100] \<and>
   generate_1d_spacing [0, 100] 40 \<noteq> Inr [0, 100 / 3, 200 / 3, 100] \<and>
   py_round (100 / 40) + 1 = 3"
proof -
  have "py_round (100 / 40) + 1 = 3" by code_simp
  then show ?thesis using spacing_example by simp
qed

lemma spacing_strict_ends:
  assumes "sorted_wrt (<) a" and "2 \<le> length a" and "d \<noteq> 0"
  shows "\<exists>offsets. generate_1d_spacing a d = Inr offsets \<and> sorted_wrt (<) offsets \<and>
           hd offsets = hd a \<and> last offsets = last a"
proof -
  have ne: "a \<noteq> []" using assms(2) by auto
  let ?r = "concat (map (segment a d) [0..<length a - 1]) @ [last a]"
  have "generate_1d_spacing a d = Inr ?r"
    using generate_1d_spacing_segments [OF assms(1) ne assms(3)] .
  moreover have "sorted_wrt (<) ?r \<and> hd ?r = a ! 0"
    using spacing_tail [OF assms(1) ne, of 0 d] by simp
  moreover have "a ! 0 = hd a" using ne by (simp add: hd_conv_nth)
  moreover have "last ?r = last a" by simp
  ultimately show ?thesis by metis
qed

text \<open>
  Claim C7. For strictly increasing anchors, at least two of them, and a positive
  spacing, \<^verbatim>\<open>_generate_1d_spacing\<close> returns a strictly increasing sequence that starts
  at the first anchor and ends at the last. Whenever \<^verbatim>\<open>generate_offsets\<close> returns, the
  offsets stored for a branch (branch ids distinct) include the chainage \<open>0\<close> and the
  length of the branch; and without structures it does return when every branch has a
  positive length.
\<close>

theorem spacing_increasing_with_ends:
  "(sorted_wrt (<) anchor_pts \<and> 2 \<le> length anchor_pts \<and> 0 < d \<longrightarrow>
      (\<exists>offsets. generate_1d_spacing anchor_pts d = Inr offsets \<and> sorted_wrt (<) offsets \<and>
         hd offsets = hd anchor_pts \<and> last offsets = last anchor_pts)) \<and>
   (generate_offsets branches d structures dict = Inr (result, logs) \<and>
      distinct (map Index branches) \<and> b \<in> set branches \<longrightarrow>
      (\<exists>offsets. result (Index b) = Some offsets \<and> 0 \<in> set offsets \<and> geom_length b \<in> set offsets)) \<and>
   (0 < d \<and> (\<forall>b\<in>set branches. 0 < geom_length b) \<longrightarrow>
      (\<exists>result. generate_offsets branches d None dict = Inr (result, [])))"
proof (intro conjI impI)
  assume "sorted_wrt (<) anchor_pts \<and> 2 \<le> length anchor_pts \<and> 0 < d"
  then show "\<exists>offsets. generate_1d_spacing anchor_pts d = Inr offsets \<and> sorted_wrt (<) offsets \<and>
         hd offsets = hd anchor_pts \<and> last offsets = last anchor_pts"
    using spacing_strict_ends [of anchor_pts d] by simp
next
  assume "generate_offsets branches d structures dict = Inr (result, logs) \<and>
      distinct (map Index branches) \<and> b \<in> set branches"
  then have "ends_present result b"
    using generate_offsets_ends by blast
  then show "\<exists>offsets. result (Index b) = Some offsets \<and> 0 \<in> set offsets \<and> geom_length b \<in> set offsets"
    by (auto simp: ends_present_def split: option.splits)
next
  assume "0 < d \<and> (\<forall>b\<in>set branches. 0 < geom_length b)"
  then obtain r where "initial_offsets branches d dict = Inr r"
    using initial_offsets_total [of d branches dict] by auto
  then show "\<exists>result. generate_offsets branches d None dict = Inr (result, [])"
    by (simp add: generate_offsets_def)
qed

definition branch_b1 :: branch where
  "branch_b1 = \<lparr>Index = ''b1'', coords = [(0, 0), (100, 0)], geom_length = 100\<rparr>"

lemma generate_offsets_b1:
  "\<exists>result. generate_offsets [branch_b1] 40 None Map.empty = Inr (result, []) \<and>
     result ''b1'' = Some [0, 50, 100]"
proof -
  have "case generate_offsets [branch_b1] 40 None Map.empty of
          Inl e \<Rightarrow> False | Inr (f, logs) \<Rightarrow> f ''b1'' = Some [0, 50, 100] \<and> logs = []"
    by code_simp
  then show ?thesis by (auto split: sum.splits)
qed

theorem spacing_increasing_with_ends_witness:
  "(\<exists>offsets. generate_1d_spacing [0, 10, 100] 40 = Inr offsets \<and> sorted_wrt (<) offsets \<and>
      hd offsets = 0 \<and> last offsets = 100) \<and>
   (\<exists>result offsets. generate_offsets [branch_b1] 40 None Map.empty = Inr (result, []) \<and>
      result ''b1'' = Some offsets \<and> 0 \<in> set offsets \<and> 100 \<in> set offsets)"
proof -
  have h1: "sorted_wrt (<) [0, 10, 100 :: real] \<and> 2 \<le> length [0, 10, 100 :: real] \<and> (0 :: real) < 40"
    by simp
  have h3: "(0 :: real) < 40 \<and> (\<forall>b\<in>set [branch_b1]. 0 < geom_length b)"
    by (simp add: branch_b1_def)
  have h2: "distinct (map Index [branch_b1]) \<and> branch_b1 \<in> set [branch_b1]"
    by simp
  note t = spacing_increasing_with_ends [of "[0, 10, 100]" 40 "[branch_b1]" None Map.empty _ "[]" branch_b1]
  from t h1 have p1: "\<exists>offsets. generate_1d_spacing [0, 10, 100] 40 = Inr offsets \<and> sorted_wrt (<) offsets \<and>
      hd offsets = 0 \<and> last offsets = 100" by simp
  from t h3 obtain result where r: "generate_offsets [branch_b1] 40 None Map.empty = Inr (result, [])"
    by blast
  from spacing_increasing_with_ends [of "[0, 10, 100]" 40 "[branch_b1]" None Map.empty result "[]" branch_b1] r h2
  obtain offsets where "result (Index branch_b1) = Some offsets \<and> 0 \<in> set offsets \<and> geom_length branch_b1 \<in> set offsets"
    by blast
  then have "result ''b1'' = Some offsets \<and> 0 \<in> set offsets \<and> 100 \<in> set offsets"
    by (simp add: branch_b1_def)
  with r p1 show ?thesis by blast
qed

section \<open>Claims about the offsets of a branch with structures\<close>

lemma in_range_nth:
  assumes "list_all (\<lambda>b. b) (in_range offsets lower_limits upper_limits)"
    and "i < length lower_limits" and "i < length upper_limits"
  shows "\<exists>v\<in>set offsets. lower_limits ! i < v \<and> v < upper_limits ! i"
proof -
  have "i < length (in_range offsets lower_limits upper_limits)"
    using assms(2,3) by (simp add: in_range_def)
  then have "in_range offsets lower_limits upper_limits ! i"
    using assms(1) by (simp add: list_all_length)
  then show ?thesis
    using assms(2,3) by (simp add: in_range_def list_ex_iff)
qed

text \<open>
  Claim C1, as the code has it. \<open>branch_offsets L d limits\<close> is the body of the loop over
  the groups in \<^verbatim>\<open>generate_offsets\<close> for a branch of length \<open>L\<close> whose structures lie at
  the chainages \<open>limits\<close> (sorted, without repetition, as \<^verbatim>\<open>sorted(unique())\<close> leaves
  them). When every chainage lies strictly inside the branch, the coverage loop returns,
  and for every structure chainage there is an offset strictly below it, above the
  chainage of the structure before it (or \<open>-0.1\<close>), and an offset strictly above it,
  below the chainage of the structure after it (or \<open>L + 0.1\<close>). Nothing keeps an offset
  from lying on the chainage itself.
\<close>

theorem structure_between_offsets:
  assumes "sorted_wrt (<) limits" and "limits \<noteq> []"
    and "\<forall>c\<in>set limits. 0 < c \<and> c < L" and "d \<noteq> 0"
  shows "\<exists>anchor_pts offsets. branch_offsets L d limits = Inr (anchor_pts, offsets) \<and>
     (\<forall>k<length limits.
        (\<exists>v\<in>set offsets. ([- (1 / 10)] @ limits) ! k < v \<and> v < limits ! k) \<and>
        (\<exists>v\<in>set offsets. limits ! k < v \<and> v < (limits @ [L + 1 / 10]) ! (k + 1)))"
proof -
  let ?lower = "[- (1 / 10)] @ limits"
  let ?upper = "limits @ [L + 1 / 10]"
  let ?n = "length limits"
  have n: "0 < ?n" using assms(2) by simp
  have inside: "\<And>k. k < ?n \<Longrightarrow> 0 < limits ! k \<and> limits ! k < L"
    using assms(3) by simp
  have L: "0 < L" using inside [of 0] n by simp
  have wins: "\<forall>i < length (zip ?lower ?upper). ?lower ! i < ?upper ! i"
  proof (intro allI impI)
    fix i assume "i < length (zip ?lower ?upper)"
    then have i: "i \<le> ?n" by simp
    consider "i = 0" | "0 < i" "i < ?n" | "i = ?n" using i by linarith
    then show "?lower ! i < ?upper ! i"
    proof cases
      case 1
      then show ?thesis using inside [of 0] n by (simp add: nth_append)
    next
      case 2
      then have "limits ! (i - 1) < limits ! i"
        using assms(1) by (simp add: sorted_wrt_iff_nth_less)
      then show ?thesis using 2 by (simp add: nth_append nth_Cons')
    next
      case 3
      then show ?thesis using inside [of "?n - 1"] n by (simp add: nth_append nth_Cons')
    qed
  qed
  have nz: "list_ex (\<lambda>l. l \<noteq> 0) limits"
    using inside [of 0] n by (auto simp: list_ex_iff intro: bexI [of _ "limits ! 0"])
  have s0: "sorted_wrt (<) [0, L]" using L by simp
  obtain offs where sp: "generate_1d_spacing [0, L] d = Inr offs"
    using generate_1d_spacing_segments [OF s0 _ assms(4)] by blast
  have sub: "set [0, L] \<subseteq> set offs" using generate_1d_spacing_anchors [OF sp] .
  obtain a' o' where cl: "coverage_loop [0, L] d ?lower ?upper offs = Inr (a', o')"
    using coverage_loop_total [OF assms(4) wins s0 _ sub] by blast
  have bo: "branch_offsets L d limits = Inr (a', o')"
    using sp nz cl by (simp add: branch_offsets_def)
  have cov: "list_all (\<lambda>b. b) (in_range o' ?lower ?upper)"
    using coverage_loop_covered [OF cl] .
  have "\<forall>k<?n. (\<exists>v\<in>set o'. ?lower ! k < v \<and> v < limits ! k) \<and>
                 (\<exists>v\<in>set o'. limits ! k < v \<and> v < ?upper ! (k + 1))"
  proof (intro allI impI conjI)
    fix k assume k: "k < ?n"
    have "\<exists>v\<in>set o'. ?lower ! k < v \<and> v < ?upper ! k"
      using in_range_nth [OF cov, of k] k by simp
    then show "\<exists>v\<in>set o'. ?lower ! k < v \<and> v < limits ! k"
      using k by (simp add: nth_append)
    have "\<exists>v\<in>set o'. ?lower ! (k + 1) < v \<and> v < ?upper ! (k + 1)"
      using in_range_nth [OF cov, of "k + 1"] k by simp
    then show "\<exists>v\<in>set o'. limits ! k < v \<and> v < ?upper ! (k + 1)"
      by simp
  qed
  with bo show ?thesis by blast
qed

theorem structure_between_offsets_witness:
  "\<exists>anchor_pts offsets. branch_offsets 100 40 [10, 20] = Inr (anchor_pts, offsets) \<and>
     (\<exists>v\<in>set offsets. 10 < v \<and> v < 20) \<and> (\<exists>v\<in>set offsets. 20 < v \<and> v < 100 + 1 / 10)"
proof -
  have "sorted_wrt (<) [10, 20 :: real]" "[10, 20 :: real] \<noteq> []"
    "\<forall>c\<in>set [10, 20 :: real]. 0 < c \<and> c < 100" "(40 :: real) \<noteq> 0"
    by simp_all
  from structure_between_offsets [OF this]
  obtain anchor_pts offsets where
    r: "branch_offsets 100 40 [10, 20] = Inr (anchor_pts, offsets)" and
    k: "\<forall>k<length [10, 20 :: real].
        (\<exists>v\<in>set offsets. ([- (1 / 10)] @ [10, 20]) ! k < v \<and> v < [10, 20] ! k) \<and>
        (\<exists>v\<in>set offsets. [10, 20] ! k < v \<and> v < ([10, 20] @ [100 + 1 / 10]) ! (k + 1))"
    by blast
  from k [rule_format, of 1]
  have "(\<exists>v\<in>set offsets. 10 < v \<and> v < 20) \<and> (\<exists>v\<in>set offsets. 20 < v \<and> v < 100 + 1 / 10)"
    by simp
  with r show ?thesis by blast
qed

text \<open>
  A branch of length \<open>100\<close> with spacing \<open>50\<close> and one structure at chainage \<open>50\<close>: both
  windows \<open>(-0.1, 50)\<close> and \<open>(50, 100.1)\<close> hold an offset from the start, no anchor is
  added, and the grid point \<open>50\<close> stays on the structure.
\<close>

theorem structure_on_grid_point_counterexample:
  "branch_offsets 100 50 [50] = Inr ([0, 100], [0, 50, 100]) \<and> (50 :: real) \<in> set [0, 50, 100]"
proof -
  have "branch_offsets 100 50 [50] = Inr ([0, 100], [0, 50, 100])" by code_simp
  then show ?thesis by simp
qed

text \<open>
  Claim C2 at a failing input. The mask \<^verbatim>\<open>idx = (structures['branchid'] == '')\<close> selects
  the rows that are kept. Two structures on branch \<open>b1\<close> at the chainages \<open>10\<close> and \<open>20\<close>
  leave the offsets of \<open>b1\<close> as they were, with no grid point between them, although the
  loop over the groups would have placed the anchor \<open>15\<close>; a structure without a branch
  is kept, and the lookup of the branch \<^verbatim>\<open>''\<close> raises.
\<close>

theorem linked_structures_ignored:
  "(\<exists>result. generate_offsets [branch_b1] 40
       (Some [\<lparr>struct_id = ''w1'', branchid = ''b1'', chainage = 10\<rparr>,
              \<lparr>struct_id = ''w2'', branchid = ''b1'', chainage = 20\<rparr>]) Map.empty = Inr (result, []) \<and>
       result ''b1'' = Some [0, 50, 100]) \<and>
   branch_offsets 100 40 [10, 20] = Inr ([0, 15, 100], [0, 15, 115 / 2, 100]) \<and>
   generate_offsets [branch_b1] 40
       (Some [\<lparr>struct_id = ''w3'', branchid = '''', chainage = 10\<rparr>]) Map.empty = Inl KeyError"
proof -
  have "case generate_offsets [branch_b1] 40
       (Some [\<lparr>struct_id = ''w1'', branchid = ''b1'', chainage = 10\<rparr>,
              \<lparr>struct_id = ''w2'', branchid = ''b1'', chainage = 20\<rparr>]) Map.empty of
          Inl e \<Rightarrow> False | Inr (f, logs) \<Rightarrow> f ''b1'' = Some [0, 50, 100] \<and> logs = []"
    by code_simp
  then have a: "\<exists>result. generate_offsets [branch_b1] 40
       (Some [\<lparr>struct_id = ''w1'', branchid = ''b1'', chainage = 10\<rparr>,
              \<lparr>struct_id = ''w2'', branchid = ''b1'', chainage = 20\<rparr>]) Map.empty = Inr (result, []) \<and>
       result ''b1'' = Some [0, 50, 100]"
    by (auto split: sum.splits)
  have b: "branch_offsets 100 40 [10, 20] = Inr ([0, 15, 100], [0, 15, 115 / 2, 100])"
    by code_simp
  have "case generate_offsets [branch_b1] 40
       (Some [\<lparr>struct_id = ''w3'', branchid = '''', chainage = 10\<rparr>]) Map.empty of
          Inl e \<Rightarrow> e = KeyError | Inr r \<Rightarrow> False"
    by code_simp
  then have c: "generate_offsets [branch_b1] 40
       (Some [\<lparr>struct_id = ''w3'', branchid = '''', chainage = 10\<rparr>]) Map.empty = Inl KeyError"
    by (auto split: sum.splits)
  from a b c show ?thesis by blast
qed

section \<open>1D-2D links\<close>

text \<open>
  A point is a pair of coordinates. \<^verbatim>\<open>KDTree(pts).query(p)\<close> of scipy is an argument of the
  model, \<open>query pts p\<close>: the distance to the nearest point of \<open>pts\<close> and its index. The
  1D mesh is read through \<^verbatim>\<open>get_nodes()\<close> and \<^verbatim>\<open>get_values('edge_nodes')\<close> (rows of two
  node ids), the 2D mesh through the centres of its faces. \<^verbatim>\<open>Links1d2d\<close> keeps the links
  in two parallel lists of 1-based ids.
\<close>

type_synonym point = "real \<times> real"

type_synonym kd_query = "point list \<Rightarrow> point \<Rightarrow> real \<times> nat"

record mesh1d_geom =
  mesh_nodes :: "point list"
  edge_nodes :: "(int \<times> int) list"

record links1d2d =
  nodes1d :: "int list"
  faces2d :: "int list"

text \<open>
  What \<^verbatim>\<open>get_1d2dlinks\<close> returns: an array of lines (node coordinates, face centre), or with
  \<^verbatim>\<open>as_gdf=True\<close> a frame with the columns \<^verbatim>\<open>node1did\<close>, \<^verbatim>\<open>face2did\<close> and the line.
\<close>

datatype links_export =
    LinksArray "(point \<times> point) list"
  | LinksFrame "(int \<times> int \<times> point \<times> point) list"

text \<open>
  Indexing a numpy array with an integer, and with an array of integers: a negative index
  counts from the end, an index out of range raises.
\<close>

definition np_index :: "'a list \<Rightarrow> int \<Rightarrow> py_error + 'a" where
  "np_index xs i =
     (if 0 \<le> i \<and> i < int (length xs) then Inr (xs ! nat i)
      else if i < 0 \<and> - int (length xs) \<le> i then Inr (xs ! nat (int (length xs) + i))
      else Inl IndexError)"

fun np_take :: "'a list \<Rightarrow> int list \<Rightarrow> py_error + 'a list" where
  "np_take xs [] = Inr []"
| "np_take xs (i # rest) =
     (case np_index xs i of
        Inl e \<Rightarrow> Inl e
      | Inr x \<Rightarrow> (case np_take xs rest of Inl e \<Rightarrow> Inl e | Inr ys \<Rightarrow> Inr (x # ys)))"

text \<open>
  \<^verbatim>\<open>Links1d2d.get_1d2dlinks(as_gdf)\<close>. \<^verbatim>\<open>any(self.nodes1d)\<close> holds when some id is not zero;
  \<^verbatim>\<open>np.dstack\<close> raises when the two coordinate arrays differ in length.
\<close>

definition get_1d2dlinks ::
  "mesh1d_geom \<Rightarrow> point list \<Rightarrow> links1d2d \<Rightarrow> bool \<Rightarrow> py_error + links_export option"
where
  "get_1d2dlinks mesh1d centers2d links as_gdf =
     (if \<not> list_ex (\<lambda>n. n \<noteq> 0) (nodes1d links) then Inr None
      else
        (case np_take (mesh_nodes mesh1d) (map (\<lambda>n. n - 1) (nodes1d links)) of
           Inl e \<Rightarrow> Inl e
         | Inr from_xy \<Rightarrow>
             (case np_take centers2d (map (\<lambda>f. f - 1) (faces2d links)) of
                Inl e \<Rightarrow> Inl e
              | Inr to_xy \<Rightarrow>
                  if length from_xy \<noteq> length to_xy then Inl ValueError
                  else if \<not> as_gdf then Inr (Some (LinksArray (zip from_xy to_xy)))
                  else Inr (Some (LinksFrame
                         (map (\<lambda>((n, f), line). (n, f, line))
                            (zip (zip (nodes1d links) (faces2d links)) (zip from_xy to_xy))))))))"

text \<open>
  \<^verbatim>\<open>list.index(x)\<close> for an element that occurs, and \<^verbatim>\<open>list.pop(loc)\<close>.
\<close>

definition list_index :: "'a list \<Rightarrow> 'a \<Rightarrow> nat" where
  "list_index xs x = length (takeWhile (\<lambda>y. y \<noteq> x) xs)"

definition pop :: "nat \<Rightarrow> 'a list \<Rightarrow> 'a list" where
  "pop loc xs = take loc xs @ drop (Suc loc) xs"

lemma list_index_less: "x \<in> set xs \<Longrightarrow> list_index xs x < length xs"
  unfolding list_index_def by (induction xs) auto

text \<open>
  The inner loop of \<^verbatim>\<open>check_boundary_link\<close>, \<^verbatim>\<open>while item in self.nodes1d\<close>: the first link
  of the node is popped from both lists, then \<^verbatim>\<open>nodes1d[item-1]\<close> is read for the log
  message. Messages of the logger are not part of the state of the links.
\<close>

function remove_while :: "point list \<Rightarrow> int \<Rightarrow> links1d2d \<Rightarrow> py_error + links1d2d" where
  "remove_while nodes item links =
     (if item \<in> set (nodes1d links) then
        (let loc = list_index (nodes1d links) item
         in if length (faces2d links) \<le> loc then Inl IndexError
            else (case np_index nodes (item - 1) of
                    Inl e \<Rightarrow> Inl e
                  | Inr xy \<Rightarrow>
                      remove_while nodes item
                        \<lparr>nodes1d = pop loc (nodes1d links), faces2d = pop loc (faces2d links)\<rparr>))
      else Inr links)"
  by pat_completeness auto
termination
proof (relation "measure (\<lambda>(nodes, item, links). length (nodes1d links))", goal_cases)
  case 1
  show ?case by simp
next
  case (2 nodes item links loc xy)
  then have "loc < length (nodes1d links)" using list_index_less by metis
  then show ?case by (simp add: pop_def)
qed

declare remove_while.simps [simp del]

fun remove_all :: "point list \<Rightarrow> int list \<Rightarrow> links1d2d \<Rightarrow> py_error + links1d2d" where
  "remove_all nodes [] links = Inr links"
| "remove_all nodes (item # items) links =
     (case remove_while nodes item links of
        Inl e \<Rightarrow> Inl e
      | Inr links' \<Rightarrow> remove_all nodes items links')"

text \<open>
  \<^verbatim>\<open>Links1d2d.check_boundary_link(bc)\<close>, with the centroid of the geometry of \<open>bc\<close>.
  \<open>counts\<close> is the dictionary built from \<^verbatim>\<open>np.unique(edge_nodes, return_counts=True)\<close>;
  \<^verbatim>\<open>counts[node_id]\<close> raises when the nearest node is on no edge, and a count above one
  only logs a warning. \<open>to_remove_ids\<close> are the ids on the edges of the nearest node
  (\<^verbatim>\<open>np.unique\<close> sorts them).
\<close>

definition counts :: "(int \<times> int) list \<Rightarrow> int \<rightharpoonup> nat" where
  "counts rows u =
     (let flat = concat (map (\<lambda>(a, b). [a, b]) rows)
      in if u \<in> set flat then Some (count_list flat u) else None)"

definition to_remove_ids :: "(int \<times> int) list \<Rightarrow> int \<Rightarrow> int list" where
  "to_remove_ids rows node_id =
     sort (remdups (concat (map (\<lambda>(a, b). [a, b])
       (filter (\<lambda>(a, b). a = node_id \<or> b = node_id) rows))))"

definition check_boundary_link ::
  "kd_query \<Rightarrow> mesh1d_geom \<Rightarrow> point \<Rightarrow> links1d2d \<Rightarrow> py_error + links1d2d"
where
  "check_boundary_link query mesh1d centroid links =
     (if nodes1d links = [] \<or> faces2d links = [] then Inr links
      else
        (let node_id = int (snd (query (mesh_nodes mesh1d) centroid)) + 1
         in case counts (edge_nodes mesh1d) node_id of
              None \<Rightarrow> Inl KeyError
            | Some c \<Rightarrow>
                remove_all (mesh_nodes mesh1d) (to_remove_ids (edge_nodes mesh1d) node_id) links))"

text \<open>
  The loop over the boundary conditions that ends both generators; a boundary without
  geometry (\<open>None\<close>) is skipped.
\<close>

fun boundary_loop ::
  "kd_query \<Rightarrow> mesh1d_geom \<Rightarrow> point option list \<Rightarrow> links1d2d \<Rightarrow> py_error + links1d2d"
where
  "boundary_loop query mesh1d [] links = Inr links"
| "boundary_loop query mesh1d (None # bcs) links = boundary_loop query mesh1d bcs links"
| "boundary_loop query mesh1d (Some centroid # bcs) links =
     (case check_boundary_link query mesh1d centroid links of
        Inl e \<Rightarrow> Inl e
      | Inr links' \<Rightarrow> boundary_loop query mesh1d bcs links')"

text \<open>
  \<^verbatim>\<open>distance < max_distance\<close>, where \<open>None\<close> is the default \<^verbatim>\<open>np.inf\<close>.
\<close>

definition closer :: "real \<Rightarrow> real option \<Rightarrow> bool" where
  "closer distance max_distance = (case max_distance of None \<Rightarrow> True | Some m \<Rightarrow> distance < m)"

text \<open>
  \<^verbatim>\<open>Links1d2d.generate_1d_to_2d(max_distance)\<close>: every 1D node with its nearest face centre,
  kept when the mask \<open>close\<close> holds; the new ids are appended to the stored lists.
\<close>

definition generate_1d_to_2d ::
  "kd_query \<Rightarrow> mesh1d_geom \<Rightarrow> point list \<Rightarrow> point option list \<Rightarrow> real option \<Rightarrow> links1d2d
     \<Rightarrow> py_error + links1d2d"
where
  "generate_1d_to_2d query mesh1d faces boundaries max_distance links =
     (let all_1d_nodes = mesh_nodes mesh1d;
          nearest = map (query faces) all_1d_nodes;
          close = map (\<lambda>(distance, idx_nearest). closer distance max_distance) nearest
      in boundary_loop query mesh1d boundaries
           \<lparr>nodes1d = nodes1d links @
              map (\<lambda>(i, c). int i + 1) (filter snd (zip [0..<length all_1d_nodes] close)),
            faces2d = faces2d links @
              map (\<lambda>((distance, idx_nearest), c). int idx_nearest + 1) (filter snd (zip nearest close))\<rparr>)"

text \<open>
  The loop of \<^verbatim>\<open>generate_2d_to_1d\<close> over the rows of the link frame. The first statement of
  its body calls \<^verbatim>\<open>possibly_intersecting\<close>, a name that \<^verbatim>\<open>dfm.py\<close> neither defines nor
  imports (the module imports \<^verbatim>\<open>geometry\<close> and calls \<^verbatim>\<open>geometry.find_nearest_branch\<close> by
  its qualified name), so the first row raises \<^verbatim>\<open>NameError\<close>.
\<close>

fun crossing_loop :: "(int \<times> int \<times> point \<times> point) list \<Rightarrow> nat list \<Rightarrow> py_error + nat list" where
  "crossing_loop [] todrop = Inr todrop"
| "crossing_loop (link # rest) todrop = Inl NameError"

text \<open>
  \<^verbatim>\<open>Links1d2d.generate_2d_to_1d(max_distance, intersecting)\<close>. The function
  \<^verbatim>\<open>geometry.find_nearest_branch\<close> is not among the sources; its effect, which cells (by
  index) carry a \<^verbatim>\<open>branch_offset\<close> afterwards and so survive \<^verbatim>\<open>dropna\<close>, is the argument
  \<open>find_nearest_branch\<close>. When \<^verbatim>\<open>get_1d2dlinks\<close> returns \<^verbatim>\<open>None\<close>, \<^verbatim>\<open>links.itertuples()\<close>
  raises \<^verbatim>\<open>AttributeError\<close>.
\<close>

definition generate_2d_to_1d ::
  "kd_query \<Rightarrow> (bool \<Rightarrow> real option \<Rightarrow> nat \<Rightarrow> bool) \<Rightarrow> mesh1d_geom \<Rightarrow> point list \<Rightarrow>
     point option list \<Rightarrow> real option \<Rightarrow> bool \<Rightarrow> links1d2d \<Rightarrow> py_error + links1d2d"
where
  "generate_2d_to_1d query find_nearest_branch mesh1d centers2d boundaries max_distance
       intersecting links =
     (let idx = (case max_distance of
                   None \<Rightarrow> [0..<length centers2d]
                 | Some m \<Rightarrow>
                     filter (\<lambda>i. fst (query (mesh_nodes mesh1d) (centers2d ! i)) < m)
                       [0..<length centers2d]);
          cells = filter (find_nearest_branch intersecting max_distance) idx;
          nearest = map (\<lambda>i. query (mesh_nodes mesh1d) (centers2d ! i)) cells;
          close = map (\<lambda>(distance, idx_nearest). closer distance max_distance) nearest;
          links' = \<lparr>nodes1d = nodes1d links @
                      map (\<lambda>((distance, idx_nearest), c). int idx_nearest + 1)
                        (filter snd (zip nearest close)),
                    faces2d = faces2d links @
                      map (\<lambda>(i, c). int i + 1) (filter snd (zip cells close))\<rparr>
      in if intersecting then boundary_loop query mesh1d boundaries links'
         else
           (case get_1d2dlinks mesh1d centers2d links' True of
              Inl e \<Rightarrow> Inl e
            | Inr None \<Rightarrow> Inl AttributeError
            | Inr (Some (LinksArray lines)) \<Rightarrow> Inl AttributeError
            | Inr (Some (LinksFrame rows)) \<Rightarrow>
                (case crossing_loop rows [] of
                   Inl e \<Rightarrow> Inl e
                 | Inr todrop \<Rightarrow>
                     (let kept = map snd (filter (\<lambda>(k, row). k \<notin> set todrop)
                                   (zip [0..<length rows] rows))
                      in boundary_loop query mesh1d boundaries
                           \<lparr>nodes1d = map (\<lambda>(n, f, line). n) kept,
                            faces2d = map (\<lambda>(n, f, line). f) kept\<rparr>))))"

text \<open>
  \<^verbatim>\<open>Links1d2d.remove_1d2d_link(x, y, mesh, max_distance)\<close>: the links of the node (or face)
  nearest to \<open>(x, y)\<close> are removed when it lies within \<open>max_distance\<close>. The argument
  \<open>mesh\<close> is the string \<^verbatim>\<open>'1d'\<close>, \<^verbatim>\<open>'2d'\<close> or any other; \<open>remove_nearest\<close> is the part of the
  method below the choice of \<open>pts\<close>. \<^verbatim>\<open>dists.min()\<close> raises on an empty array.
\<close>

definition dists_to :: "point list \<Rightarrow> real \<Rightarrow> real \<Rightarrow> real list" where
  "dists_to pts x y = map (\<lambda>(px, py). sqrt ((px - x)\<^sup>2 + (py - y)\<^sup>2)) pts"

definition argmin :: "real list \<Rightarrow> nat" where
  "argmin ds = list_index ds (Min (set ds))"

datatype mesh_dim = Mesh1d | Mesh2d | MeshOther

function remove_link_while :: "bool \<Rightarrow> int \<Rightarrow> links1d2d \<Rightarrow> py_error + links1d2d" where
  "remove_link_while on_nodes item links =
     (let linkdim = (if on_nodes then nodes1d links else faces2d links)
      in if item \<in> set linkdim then
           (let loc = list_index linkdim item
            in if length (nodes1d links) \<le> loc \<or> length (faces2d links) \<le> loc then Inl IndexError
               else remove_link_while on_nodes item
                      \<lparr>nodes1d = pop loc (nodes1d links), faces2d = pop loc (faces2d links)\<rparr>)
         else Inr links)"
  by pat_completeness auto
termination
proof (relation "measure (\<lambda>(on_nodes, item, links). length (nodes1d links))", goal_cases)
  case 1
  show ?case by simp
next
  case (2 on_nodes item links linkdim loc)
  then have "loc < length (nodes1d links)" by simp
  then show ?case by (simp add: pop_def)
qed

declare remove_link_while.simps [simp del]

fun remove_link_all :: "bool \<Rightarrow> int list \<Rightarrow> links1d2d \<Rightarrow> py_error + links1d2d" where
  "remove_link_all on_nodes [] links = Inr links"
| "remove_link_all on_nodes (item # items) links =
     (case remove_link_while on_nodes item links of
        Inl e \<Rightarrow> Inl e
      | Inr links' \<Rightarrow> remove_link_all on_nodes items links')"

definition remove_nearest ::
  "point list \<Rightarrow> bool \<Rightarrow> real \<Rightarrow> real \<Rightarrow> real \<Rightarrow> links1d2d \<Rightarrow> py_error + links1d2d"
where
  "remove_nearest pts on_nodes x y max_distance links =
     (let dists = dists_to pts x y
      in if dists = [] then Inl ValueError
         else if max_distance < Min (set dists) then Inr links
         else
           (let imin = argmin dists;
                linkdim = (if on_nodes then nodes1d links else faces2d links);
                to_remove = filter (\<lambda>link. link = int imin + 1) linkdim
            in remove_link_all on_nodes to_remove links))"

definition remove_1d2d_link ::
  "mesh1d_geom \<Rightarrow> point list \<Rightarrow> real \<Rightarrow> real \<Rightarrow> mesh_dim \<Rightarrow> real \<Rightarrow> links1d2d
     \<Rightarrow> py_error + links1d2d"
where
  "remove_1d2d_link mesh1d centers2d x y mesh max_distance links =
     (case mesh of
        Mesh1d \<Rightarrow> remove_nearest (mesh_nodes mesh1d) True x y max_distance links
      | Mesh2d \<Rightarrow> remove_nearest centers2d False x y max_distance links
      | MeshOther \<Rightarrow> Inl ValueError)"

subsection \<open>Popping one link\<close>

lemma pop_subseq: "subseq (pop loc zs) zs"
proof (cases "loc < length zs")
  case True
  have "subseq (drop (Suc loc) zs) (zs ! loc # drop (Suc loc) zs)"
    by (simp add: subseq_Cons')
  then have "subseq (drop (Suc loc) zs) (drop loc zs)"
    using True by (simp add: Cons_nth_drop_Suc)
  then have "subseq (take loc zs @ drop (Suc loc) zs) (take loc zs @ drop loc zs)"
    by (intro list_emb_append_mono) simp_all
  then show ?thesis by (simp add: pop_def)
next
  case False
  then show ?thesis by (simp add: pop_def)
qed

lemma pop_zip:
  assumes "loc < length xs" and "loc < length ys"
  shows "zip (pop loc xs) (pop loc ys) = pop loc (zip xs ys)"
proof -
  have "length (take loc xs) = length (take loc ys)"
    using assms by simp
  then show ?thesis
    by (simp add: pop_def take_zip drop_zip)
qed

lemma pop_length: "loc < length xs \<Longrightarrow> length (pop loc xs) = length xs - 1"
  by (simp add: pop_def)

lemma pop_set: "set (pop loc xs) \<subseteq> set xs"
  by (auto simp: pop_def dest: in_set_takeD in_set_dropD)

subsection \<open>Removal only removes\<close>

definition link_table :: "links1d2d \<Rightarrow> (int \<times> int) list" where
  "link_table links = zip (nodes1d links) (faces2d links)"

lemma remove_while_absent:
  "item \<notin> set (nodes1d links) \<Longrightarrow> remove_while nodes item links = Inr links"
  by (simp add: remove_while.simps [of nodes item links])

lemma remove_while_removes:
  "remove_while nodes item links = Inr links' \<Longrightarrow>
   length (nodes1d links) = length (faces2d links) \<Longrightarrow>
     length (nodes1d links') = length (faces2d links') \<and>
     subseq (link_table links') (link_table links) \<and>
     item \<notin> set (nodes1d links') \<and> set (nodes1d links') \<subseteq> set (nodes1d links)"
proof (induction nodes item links rule: remove_while.induct)
  case (1 nodes item links)
  show ?case
  proof (cases "item \<in> set (nodes1d links)")
    case False
    then have "links' = links"
      using "1.prems"(1) by (simp add: remove_while.simps [of nodes item links])
    then show ?thesis using False "1.prems"(2) by simp
  next
    case True
    let ?loc = "list_index (nodes1d links) item"
    let ?next = "\<lparr>nodes1d = pop ?loc (nodes1d links), faces2d = pop ?loc (faces2d links)\<rparr>"
    have loc: "?loc < length (nodes1d links)" using True by (rule list_index_less)
    then have loc': "\<not> length (faces2d links) \<le> ?loc" using "1.prems"(2) by simp
    from "1.prems"(1) True loc' obtain xy where
      xy: "np_index nodes (item - 1) = Inr xy" and
      rec: "remove_while nodes item ?next = Inr links'"
      by (simp add: remove_while.simps [of nodes item links] Let_def split: sum.splits)
    have len: "length (nodes1d ?next) = length (faces2d ?next)"
      using loc "1.prems"(2) by (simp add: pop_length)
    have ih: "length (nodes1d links') = length (faces2d links')"
      "subseq (link_table links') (link_table ?next)"
      "item \<notin> set (nodes1d links')" "set (nodes1d links') \<subseteq> set (nodes1d ?next)"
      using "1.IH" [OF True refl loc' xy rec len] by simp_all
    have "link_table ?next = pop ?loc (link_table links)"
      using loc "1.prems"(2) by (simp add: link_table_def pop_zip)
    then have "subseq (link_table ?next) (link_table links)"
      by (simp add: pop_subseq)
    then have "subseq (link_table links') (link_table links)"
      using ih(2) subseq_order.order_trans by blast
    moreover have "set (nodes1d links') \<subseteq> set (nodes1d links)"
      using ih(4) pop_set [of ?loc "nodes1d links"] by auto
    ultimately show ?thesis using ih(1,3) by simp
  qed
qed

lemma remove_all_absent:
  "\<forall>item\<in>set items. item \<notin> set (nodes1d links) \<Longrightarrow> remove_all nodes items links = Inr links"
  by (induction items) (simp_all add: remove_while_absent)

lemma remove_all_removes:
  "remove_all nodes items links = Inr links' \<Longrightarrow>
   length (nodes1d links) = length (faces2d links) \<Longrightarrow>
     length (nodes1d links') = length (faces2d links') \<and>
     subseq (link_table links') (link_table links) \<and>
     (\<forall>item\<in>set items. item \<notin> set (nodes1d links')) \<and>
     set (nodes1d links') \<subseteq> set (nodes1d links)"
proof (induction items arbitrary: links)
  case Nil
  then show ?case by simp
next
  case (Cons item items)
  from Cons.prems(1) obtain mid where
    first: "remove_while nodes item links = Inr mid" and
    rest: "remove_all nodes items mid = Inr links'"
    by (auto split: sum.splits)
  have m: "length (nodes1d mid) = length (faces2d mid)"
    "subseq (link_table mid) (link_table links)"
    "item \<notin> set (nodes1d mid)" "set (nodes1d mid) \<subseteq> set (nodes1d links)"
    using remove_while_removes [OF first Cons.prems(2)] by simp_all
  have r: "length (nodes1d links') = length (faces2d links')"
    "subseq (link_table links') (link_table mid)"
    "\<forall>item\<in>set items. item \<notin> set (nodes1d links')"
    "set (nodes1d links') \<subseteq> set (nodes1d mid)"
    using Cons.IH [OF rest m(1)] by simp_all
  have "subseq (link_table links') (link_table links)"
    using r(2) m(2) subseq_order.order_trans by blast
  moreover have "item \<notin> set (nodes1d links')" using r(4) m(3) by blast
  moreover have "set (nodes1d links') \<subseteq> set (nodes1d links)" using r(4) m(4) by blast
  ultimately show ?case using r(1,3) by simp
qed

lemma check_boundary_link_removes:
  assumes "check_boundary_link query mesh1d centroid links = Inr links'"
    and "length (nodes1d links) = length (faces2d links)"
  shows "length (nodes1d links') = length (faces2d links') \<and>
         subseq (link_table links') (link_table links) \<and>
         check_boundary_link query mesh1d centroid links' = Inr links'"
proof (cases "nodes1d links = [] \<or> faces2d links = []")
  case True
  then have "links' = links" using assms(1) by (simp add: check_boundary_link_def)
  then show ?thesis using assms by simp
next
  case False
  let ?node_id = "int (snd (query (mesh_nodes mesh1d) centroid)) + 1"
  let ?to_remove = "to_remove_ids (edge_nodes mesh1d) ?node_id"
  from assms(1) False obtain c where known: "counts (edge_nodes mesh1d) ?node_id = Some c"
    by (auto simp: check_boundary_link_def Let_def split: option.splits)
  from assms(1) False known have ra: "remove_all (mesh_nodes mesh1d) ?to_remove links = Inr links'"
    by (simp add: check_boundary_link_def Let_def)
  have r: "length (nodes1d links') = length (faces2d links')"
    "subseq (link_table links') (link_table links)"
    "\<forall>item\<in>set ?to_remove. item \<notin> set (nodes1d links')"
    using remove_all_removes [OF ra assms(2)] by simp_all
  have "remove_all (mesh_nodes mesh1d) ?to_remove links' = Inr links'"
    using remove_all_absent [OF r(3)] .
  then have "check_boundary_link query mesh1d centroid links' = Inr links'"
    using known by (simp add: check_boundary_link_def Let_def)
  then show ?thesis using r(1,2) by simp
qed

lemma check_boundary_link_ex:
  "check_boundary_link (\<lambda>pts p. (0, 0)) \<lparr>mesh_nodes = [(0, 0), (10, 0), (20, 0)], edge_nodes = [(1, 2), (2, 3)]\<rparr>
     (0, 0) \<lparr>nodes1d = [1, 3, 2, 3], faces2d = [5, 6, 7, 8]\<rparr> = Inr \<lparr>nodes1d = [3, 3], faces2d = [6, 8]\<rparr>"
  by code_simp

text \<open>
  Claim C5. When \<^verbatim>\<open>check_boundary_link\<close> returns on a link table (the two lists equally
  long), the links left are a subsequence of the links before (nothing is added, nothing
  is changed), and a second call with the same boundary and mesh returns the table as it
  is.
\<close>

theorem check_boundary_link_idempotent:
  assumes "length (nodes1d links) = length (faces2d links)"
    and "check_boundary_link query mesh1d centroid links = Inr links'"
  shows "check_boundary_link query mesh1d centroid links' = Inr links' \<and>
         subseq (link_table links') (link_table links) \<and>
         length (nodes1d links') = length (faces2d links')"
  using check_boundary_link_removes [OF assms(2) assms(1)] by simp

theorem check_boundary_link_idempotent_witness:
  "check_boundary_link (\<lambda>pts p. (0, 0)) \<lparr>mesh_nodes = [(0, 0), (10, 0), (20, 0)], edge_nodes = [(1, 2), (2, 3)]\<rparr>
     (0, 0) \<lparr>nodes1d = [1, 3, 2, 3], faces2d = [5, 6, 7, 8]\<rparr> = Inr \<lparr>nodes1d = [3, 3], faces2d = [6, 8]\<rparr> \<and>
   check_boundary_link (\<lambda>pts p. (0, 0)) \<lparr>mesh_nodes = [(0, 0), (10, 0), (20, 0)], edge_nodes = [(1, 2), (2, 3)]\<rparr>
     (0, 0) \<lparr>nodes1d = [3, 3], faces2d = [6, 8]\<rparr> = Inr \<lparr>nodes1d = [3, 3], faces2d = [6, 8]\<rparr> \<and>
   subseq [(3, 6), (3, 8)] [(1, 5), (3, 6), (2, 7), (3 :: int, 8 :: int)]"
proof -
  have len: "length (nodes1d \<lparr>nodes1d = [1, 3, 2, 3], faces2d = [5, 6, 7, 8]\<rparr>) =
             length (faces2d \<lparr>nodes1d = [1, 3, 2, 3], faces2d = [5, 6, 7, 8]\<rparr>)"
    by simp
  from check_boundary_link_idempotent [OF len check_boundary_link_ex] check_boundary_link_ex
  show ?thesis by (simp add: link_table_def)
qed

subsection \<open>Export of the links\<close>

text \<open>
  Claim C10. With no stored link, \<^verbatim>\<open>get_1d2dlinks\<close> returns \<^verbatim>\<open>None\<close>, whatever \<^verbatim>\<open>as_gdf\<close> is.
\<close>

theorem get_1d2dlinks_empty:
  "nodes1d links = [] \<Longrightarrow> get_1d2dlinks mesh1d centers2d links as_gdf = Inr None"
  by (simp add: get_1d2dlinks_def)

theorem get_1d2dlinks_empty_witness:
  "get_1d2dlinks \<lparr>mesh_nodes = [(0, 0)], edge_nodes = []\<rparr> [(7, 0)] \<lparr>nodes1d = [], faces2d = []\<rparr> True = Inr None \<and>
   get_1d2dlinks \<lparr>mesh_nodes = [(0, 0)], edge_nodes = []\<rparr> [(7, 0)] \<lparr>nodes1d = [], faces2d = []\<rparr> False = Inr None"
proof -
  have "nodes1d \<lparr>nodes1d = [], faces2d = []\<rparr> = []" by simp
  from get_1d2dlinks_empty [OF this] show ?thesis by blast
qed

lemma get_1d2dlinks_nonempty_ex:
  "get_1d2dlinks \<lparr>mesh_nodes = [(0, 0)], edge_nodes = []\<rparr> [(7, 0)] \<lparr>nodes1d = [1], faces2d = [1]\<rparr> False =
     Inr (Some (LinksArray [((0, 0), (7, 0))]))"
  by code_simp

subsection \<open>The generators\<close>

lemma boundary_loop_no_links:
  "nodes1d links = [] \<Longrightarrow> boundary_loop query mesh1d bcs links = Inr links"
proof (induction bcs)
  case Nil
  then show ?case by simp
next
  case (Cons bc bcs)
  then show ?case by (cases bc) (simp_all add: check_boundary_link_def)
qed

lemma boundary_loop_removes:
  "boundary_loop query mesh1d bcs links = Inr links' \<Longrightarrow>
   length (nodes1d links) = length (faces2d links) \<Longrightarrow>
     length (nodes1d links') = length (faces2d links') \<and> subseq (link_table links') (link_table links)"
proof (induction bcs arbitrary: links)
  case Nil
  then show ?case by simp
next
  case (Cons bc bcs)
  show ?case
  proof (cases bc)
    case None
    then show ?thesis using Cons by simp
  next
    case (Some centroid)
    with Cons.prems(1) obtain mid where
      first: "check_boundary_link query mesh1d centroid links = Inr mid" and
      rest: "boundary_loop query mesh1d bcs mid = Inr links'"
      by (auto split: sum.splits)
    have m: "length (nodes1d mid) = length (faces2d mid)" "subseq (link_table mid) (link_table links)"
      using check_boundary_link_removes [OF first Cons.prems(2)] by simp_all
    have "length (nodes1d links') = length (faces2d links')" "subseq (link_table links') (link_table mid)"
      using Cons.IH [OF rest m(1)] by simp_all
    then show ?thesis using m(2) subseq_order.order_trans by blast
  qed
qed

lemma none_close:
  assumes "\<forall>r\<in>set nearest. 0 \<le> fst r" and "m \<le> 0"
  shows "filter snd (zip xs (map (\<lambda>(distance, idx_nearest). closer distance (Some m)) nearest)) = []"
proof -
  have "\<forall>c\<in>set (map (\<lambda>(distance, idx_nearest). closer distance (Some m)) nearest). \<not> c"
    using assms by (auto simp: closer_def)
  then show ?thesis
    by (auto simp: filter_empty_conv dest: set_zip_rightD)
qed

lemma links_unchanged: "\<lparr>nodes1d = nodes1d links, faces2d = faces2d links\<rparr> = links"
  by simp

text \<open>
  Claim C8, as the code has it. Neither generator checks \<^verbatim>\<open>max_distance\<close>. With
  \<^verbatim>\<open>max_distance <= 0\<close> (the distances of the KD-tree are not negative) no distance is
  below it: the 1D-driven generator and the 2D-driven generator in its intersecting mode
  add no link and end with the boundary clean-up of the links already stored; on an
  empty link table they return it.
\<close>

theorem nonpositive_max_distance_adds_nothing:
  assumes "\<forall>pts p. 0 \<le> fst (query pts p)" and "m \<le> 0"
  shows "generate_1d_to_2d query mesh1d faces boundaries (Some m) links =
           boundary_loop query mesh1d boundaries links \<and>
         generate_2d_to_1d query find_nearest_branch mesh1d centers2d boundaries (Some m) True links =
           boundary_loop query mesh1d boundaries links \<and>
         generate_1d_to_2d query mesh1d faces boundaries (Some m) \<lparr>nodes1d = [], faces2d = []\<rparr> =
           Inr \<lparr>nodes1d = [], faces2d = []\<rparr> \<and>
         generate_2d_to_1d query find_nearest_branch mesh1d centers2d boundaries (Some m) True
             \<lparr>nodes1d = [], faces2d = []\<rparr> =
           Inr \<lparr>nodes1d = [], faces2d = []\<rparr>"
proof -
  have nn: "0 \<le> fst (query pts p)" for pts p
    using assms(1) by blast
  have a: "generate_1d_to_2d query mesh1d faces boundaries (Some m) l =
           boundary_loop query mesh1d boundaries l" for l
  proof -
    have "\<forall>r\<in>set (map (query faces) (mesh_nodes mesh1d)). 0 \<le> fst r"
      by (simp add: nn)
    note nc = none_close [OF this assms(2)]
    show ?thesis
      unfolding generate_1d_to_2d_def Let_def nc by (simp add: links_unchanged)
  qed
  have b: "generate_2d_to_1d query find_nearest_branch mesh1d centers2d boundaries (Some m) True l =
           boundary_loop query mesh1d boundaries l" for l
  proof -
    have "\<forall>r\<in>set (map (\<lambda>i. query (mesh_nodes mesh1d) (centers2d ! i)) cells). 0 \<le> fst r" for cells
      by (simp add: nn)
    note nc = none_close [OF this assms(2)]
    show ?thesis
      unfolding generate_2d_to_1d_def Let_def nc by (simp add: links_unchanged)
  qed
  have c: "boundary_loop query mesh1d boundaries \<lparr>nodes1d = [], faces2d = []\<rparr> =
           Inr \<lparr>nodes1d = [], faces2d = []\<rparr>"
    by (simp add: boundary_loop_no_links)
  show ?thesis using a b c by simp
qed

theorem nonpositive_max_distance_adds_nothing_witness:
  "generate_1d_to_2d (\<lambda>pts p. (7, 0)) \<lparr>mesh_nodes = [(0, 0)], edge_nodes = []\<rparr> [(7, 0)] [] (Some (- 1))
       \<lparr>nodes1d = [], faces2d = []\<rparr> = Inr \<lparr>nodes1d = [], faces2d = []\<rparr> \<and>
   generate_2d_to_1d (\<lambda>pts p. (7, 0)) (\<lambda>i md k. True) \<lparr>mesh_nodes = [(0, 0)], edge_nodes = []\<rparr> [(7, 0)] []
       (Some (- 1)) True \<lparr>nodes1d = [], faces2d = []\<rparr> = Inr \<lparr>nodes1d = [], faces2d = []\<rparr>"
proof -
  have "\<forall>pts p. (0 :: real) \<le> fst ((\<lambda>pts p. (7, 0 :: nat)) (pts :: point list) (p :: point))"
    and "(- 1 :: real) \<le> 0"
    by simp_all
  from nonpositive_max_distance_adds_nothing [OF this] show ?thesis by blast
qed

text \<open>
  One 1D node at \<open>(0, 0)\<close>, one face with its centre at \<open>(7, 0)\<close>, \<^verbatim>\<open>max_distance = 0\<close>:
  both generators return, with no link, and raise nothing.
\<close>

theorem zero_max_distance_counterexample:
  "generate_1d_to_2d (\<lambda>pts p. (7, 0)) \<lparr>mesh_nodes = [(0, 0)], edge_nodes = []\<rparr> [(7, 0)] [] (Some 0)
       \<lparr>nodes1d = [], faces2d = []\<rparr> = Inr \<lparr>nodes1d = [], faces2d = []\<rparr> \<and>
   generate_2d_to_1d (\<lambda>pts p. (7, 0)) (\<lambda>i md k. True) \<lparr>mesh_nodes = [(0, 0)], edge_nodes = []\<rparr> [(7, 0)] []
       (Some 0) True \<lparr>nodes1d = [], faces2d = []\<rparr> = Inr \<lparr>nodes1d = [], faces2d = []\<rparr>"
  by code_simp

subsection \<open>Pairs that occur once\<close>

lemma subseq_distinct: "subseq xs ys \<Longrightarrow> distinct ys \<Longrightarrow> distinct xs"
proof (induction rule: list_emb.induct)
  case (list_emb_Nil ys)
  then show ?case by simp
next
  case (list_emb_Cons xs ys y)
  then show ?case by simp
next
  case (list_emb_Cons2 x y xs ys)
  have "set xs \<subseteq> set ys"
  proof
    fix a assume "a \<in> set xs"
    with list_emb_Cons2.hyps(2) show "a \<in> set ys"
      by (rule list_emb_set) simp
  qed
  then show ?case using list_emb_Cons2 by auto
qed

lemma filter_mask_length:
  "length xs = length ys \<Longrightarrow> length ys = length cs \<Longrightarrow>
     length (filter snd (zip xs cs)) = length (filter snd (zip ys cs))"
  by (induction xs ys cs rule: list_induct3) auto

lemma filter_mask_distinct:
  "distinct xs \<Longrightarrow> distinct (map fst (filter snd (zip xs cs)))"
proof (induction xs arbitrary: cs)
  case Nil
  then show ?case by simp
next
  case (Cons x xs)
  show ?case
  proof (cases cs)
    case Nil
    then show ?thesis by simp
  next
    case (Cons c cs')
    have "x \<notin> fst ` set (zip xs cs')"
      using Cons.prems by (auto dest: set_zip_leftD)
    then show ?thesis
      using Cons.IH [of cs'] Cons.prems Cons by auto
  qed
qed

text \<open>The links one generator call appends: ids under a mask, the masked side distinct.\<close>

lemma masked_links:
  fixes nearest :: "(real \<times> nat) list" and ks :: "nat list"
  assumes "length ks = length nearest" and "length nearest = length close" and "distinct ks"
  shows "length (map (\<lambda>(i, c). int i + 1) (filter snd (zip ks close))) =
         length (map (\<lambda>((distance, idx_nearest), c). int idx_nearest + 1) (filter snd (zip nearest close))) \<and>
         distinct (map (\<lambda>(i, c). int i + 1) (filter snd (zip ks close)))"
proof -
  have "length (filter snd (zip ks close)) = length (filter snd (zip nearest close))"
    using assms(1,2) by (rule filter_mask_length)
  moreover have "distinct (map (\<lambda>(i, c). int i + 1) (filter snd (zip ks close)))"
  proof -
    have shift: "distinct (map (\<lambda>i. int i + 1) js)" if "distinct js" for js :: "nat list"
      using that by (simp add: distinct_map inj_on_def)
    have eq: "map (\<lambda>(i, c). int i + 1) (filter snd (zip ks close)) =
          map (\<lambda>i. int i + 1) (map fst (filter snd (zip ks close)))"
      by (simp add: case_prod_unfold)
    have "distinct (map fst (filter snd (zip ks close)))"
      using assms(3) by (rule filter_mask_distinct)
    from shift [OF this] show ?thesis
      unfolding eq .
  qed
  ultimately show ?thesis by simp
qed

lemma generate_1d_to_2d_unique:
  assumes "generate_1d_to_2d query mesh1d faces boundaries max_distance \<lparr>nodes1d = [], faces2d = []\<rparr> = Inr links"
  shows "length (nodes1d links) = length (faces2d links) \<and> distinct (link_table links)"
proof -
  let ?nearest = "map (query faces) (mesh_nodes mesh1d)"
  let ?close = "map (\<lambda>(distance, idx_nearest). closer distance max_distance) ?nearest"
  let ?n = "length (mesh_nodes mesh1d)"
  let ?new = "\<lparr>nodes1d = map (\<lambda>(i, c). int i + 1) (filter snd (zip [0..<?n] ?close)),
               faces2d = map (\<lambda>((distance, idx_nearest), c). int idx_nearest + 1) (filter snd (zip ?nearest ?close))\<rparr>"
  have run: "boundary_loop query mesh1d boundaries ?new = Inr links"
    using assms by (simp add: generate_1d_to_2d_def Let_def)
  have new: "length (nodes1d ?new) = length (faces2d ?new)" "distinct (nodes1d ?new)"
    using masked_links [of "[0..<?n]" ?nearest ?close] by simp_all
  then have "distinct (link_table ?new)"
    unfolding link_table_def by (intro distinct_zipI1)
  moreover have "length (nodes1d links) = length (faces2d links)"
    "subseq (link_table links) (link_table ?new)"
    using boundary_loop_removes [OF run new(1)] by simp_all
  ultimately show ?thesis using subseq_distinct by blast
qed

lemma generate_2d_to_1d_unique:
  assumes "generate_2d_to_1d query find_nearest_branch mesh1d centers2d boundaries max_distance True
             \<lparr>nodes1d = [], faces2d = []\<rparr> = Inr links"
  shows "length (nodes1d links) = length (faces2d links) \<and> distinct (link_table links)"
proof -
  let ?idx = "case max_distance of
                None \<Rightarrow> [0..<length centers2d]
              | Some m \<Rightarrow> filter (\<lambda>i. fst (query (mesh_nodes mesh1d) (centers2d ! i)) < m)
                            [0..<length centers2d]"
  let ?cells = "filter (find_nearest_branch True max_distance) ?idx"
  let ?nearest = "map (\<lambda>i. query (mesh_nodes mesh1d) (centers2d ! i)) ?cells"
  let ?close = "map (\<lambda>(distance, idx_nearest). closer distance max_distance) ?nearest"
  let ?new = "\<lparr>nodes1d = map (\<lambda>((distance, idx_nearest), c). int idx_nearest + 1) (filter snd (zip ?nearest ?close)),
               faces2d = map (\<lambda>(i, c). int i + 1) (filter snd (zip ?cells ?close))\<rparr>"
  have run: "boundary_loop query mesh1d boundaries ?new = Inr links"
    using assms by (simp add: generate_2d_to_1d_def Let_def)
  have "distinct ?idx" by (cases max_distance) simp_all
  then have "distinct ?cells" by simp
  then have new: "length (faces2d ?new) = length (nodes1d ?new)" "distinct (faces2d ?new)"
    using masked_links [of ?cells ?nearest ?close] by simp_all
  then have "distinct (link_table ?new)"
    unfolding link_table_def by (intro distinct_zipI2)
  moreover have "length (nodes1d links) = length (faces2d links)"
    "subseq (link_table links) (link_table ?new)"
    using boundary_loop_removes [OF run new(1) [symmetric]] by simp_all
  ultimately show ?thesis using subseq_distinct by blast
qed

lemma remove_link_while_removes:
  "remove_link_while on_nodes item links = Inr links' \<Longrightarrow>
   length (nodes1d links) = length (faces2d links) \<Longrightarrow>
     length (nodes1d links') = length (faces2d links') \<and> subseq (link_table links') (link_table links)"
proof (induction on_nodes item links rule: remove_link_while.induct)
  case (1 on_nodes item links)
  let ?linkdim = "if on_nodes then nodes1d links else faces2d links"
  show ?case
  proof (cases "item \<in> set ?linkdim")
    case False
    then have "links' = links"
      using "1.prems"(1) by (simp add: remove_link_while.simps [of on_nodes item links])
    then show ?thesis using "1.prems"(2) by simp
  next
    case True
    let ?loc = "list_index ?linkdim item"
    let ?next = "\<lparr>nodes1d = pop ?loc (nodes1d links), faces2d = pop ?loc (faces2d links)\<rparr>"
    have "?loc < length ?linkdim" using True by (rule list_index_less)
    then have loc: "?loc < length (nodes1d links)" "?loc < length (faces2d links)"
      using "1.prems"(2) by (simp_all split: if_splits)
    then have ok: "\<not> (length (nodes1d links) \<le> ?loc \<or> length (faces2d links) \<le> ?loc)"
      by simp
    from "1.prems"(1) True ok have rec: "remove_link_while on_nodes item ?next = Inr links'"
      by (simp add: remove_link_while.simps [of on_nodes item links] Let_def)
    have len: "length (nodes1d ?next) = length (faces2d ?next)"
      using loc "1.prems"(2) by (simp add: pop_length)
    have ih: "length (nodes1d links') = length (faces2d links')"
      "subseq (link_table links') (link_table ?next)"
      using "1.IH" [OF refl True refl ok rec len] by simp_all
    have "link_table ?next = pop ?loc (link_table links)"
      using loc by (simp add: link_table_def pop_zip)
    then have "subseq (link_table ?next) (link_table links)"
      by (simp add: pop_subseq)
    then show ?thesis using ih subseq_order.order_trans by blast
  qed
qed

lemma remove_link_all_removes:
  "remove_link_all on_nodes items links = Inr links' \<Longrightarrow>
   length (nodes1d links) = length (faces2d links) \<Longrightarrow>
     length (nodes1d links') = length (faces2d links') \<and> subseq (link_table links') (link_table links)"
proof (induction items arbitrary: links)
  case Nil
  then show ?case by simp
next
  case (Cons item items)
  from Cons.prems(1) obtain mid where
    first: "remove_link_while on_nodes item links = Inr mid" and
    rest: "remove_link_all on_nodes items mid = Inr links'"
    by (auto split: sum.splits)
  have m: "length (nodes1d mid) = length (faces2d mid)" "subseq (link_table mid) (link_table links)"
    using remove_link_while_removes [OF first Cons.prems(2)] by simp_all
  have "length (nodes1d links') = length (faces2d links')" "subseq (link_table links') (link_table mid)"
    using Cons.IH [OF rest m(1)] by simp_all
  then show ?case using m(2) subseq_order.order_trans by blast
qed

lemma remove_nearest_removes:
  assumes "remove_nearest pts on_nodes x y max_distance links = Inr links'"
    and "length (nodes1d links) = length (faces2d links)"
  shows "length (nodes1d links') = length (faces2d links') \<and> subseq (link_table links') (link_table links)"
proof (cases "max_distance < Min (set (dists_to pts x y))")
  case True
  then have "links' = links"
    using assms(1) by (simp add: remove_nearest_def Let_def split: if_splits)
  then show ?thesis using assms(2) by simp
next
  case False
  then obtain items where "remove_link_all on_nodes items links = Inr links'"
    using assms(1) by (simp add: remove_nearest_def Let_def split: if_splits)
  then show ?thesis using remove_link_all_removes assms(2) by blast
qed

lemma remove_1d2d_link_removes:
  assumes "remove_1d2d_link mesh1d centers2d x y mesh max_distance links = Inr links'"
    and "length (nodes1d links) = length (faces2d links)"
  shows "length (nodes1d links') = length (faces2d links') \<and> subseq (link_table links') (link_table links)"
proof (cases mesh)
  case Mesh1d
  then show ?thesis
    using assms remove_nearest_removes [of "mesh_nodes mesh1d" True x y max_distance links links']
    by (simp add: remove_1d2d_link_def)
next
  case Mesh2d
  then show ?thesis
    using assms remove_nearest_removes [of centers2d False x y max_distance links links']
    by (simp add: remove_1d2d_link_def)
next
  case MeshOther
  then show ?thesis using assms(1) by (simp add: remove_1d2d_link_def)
qed

text \<open>
  A removal is a call of \<^verbatim>\<open>check_boundary_link\<close> (for a boundary with the given centroid) or
  of \<^verbatim>\<open>remove_1d2d_link\<close>; \<open>removals\<close> runs a sequence of them.
\<close>

datatype removal = BoundaryCheck point | RemoveLink real real mesh_dim real

fun removals ::
  "kd_query \<Rightarrow> mesh1d_geom \<Rightarrow> point list \<Rightarrow> removal list \<Rightarrow> links1d2d \<Rightarrow> py_error + links1d2d"
where
  "removals query mesh1d centers2d [] links = Inr links"
| "removals query mesh1d centers2d (BoundaryCheck centroid # ops) links =
     (case check_boundary_link query mesh1d centroid links of
        Inl e \<Rightarrow> Inl e
      | Inr links' \<Rightarrow> removals query mesh1d centers2d ops links')"
| "removals query mesh1d centers2d (RemoveLink x y mesh max_distance # ops) links =
     (case remove_1d2d_link mesh1d centers2d x y mesh max_distance links of
        Inl e \<Rightarrow> Inl e
      | Inr links' \<Rightarrow> removals query mesh1d centers2d ops links')"

lemma removals_removes:
  "removals query mesh1d centers2d ops links = Inr links' \<Longrightarrow>
   length (nodes1d links) = length (faces2d links) \<Longrightarrow>
     length (nodes1d links') = length (faces2d links') \<and> subseq (link_table links') (link_table links)"
proof (induction ops arbitrary: links)
  case Nil
  then show ?case by simp
next
  case (Cons op ops)
  obtain mid where
    mid: "length (nodes1d mid) = length (faces2d mid)" "subseq (link_table mid) (link_table links)" and
    rest: "removals query mesh1d centers2d ops mid = Inr links'"
  proof (cases op)
    case (BoundaryCheck centroid)
    with Cons.prems(1) obtain mid where
      first: "check_boundary_link query mesh1d centroid links = Inr mid" and
      rest: "removals query mesh1d centers2d ops mid = Inr links'"
      by (auto split: sum.splits)
    from check_boundary_link_removes [OF first Cons.prems(2)] rest that show ?thesis by blast
  next
    case (RemoveLink x y mesh max_distance)
    with Cons.prems(1) obtain mid where
      first: "remove_1d2d_link mesh1d centers2d x y mesh max_distance links = Inr mid" and
      rest: "removals query mesh1d centers2d ops mid = Inr links'"
      by (auto split: sum.splits)
    from remove_1d2d_link_removes [OF first Cons.prems(2)] rest that show ?thesis by blast
  qed
  have "length (nodes1d links') = length (faces2d links')" "subseq (link_table links') (link_table mid)"
    using Cons.IH [OF rest mid(1)] by simp_all
  then show ?case using mid(2) subseq_order.order_trans by blast
qed

text \<open>
  Claim C9, as the code has it. Nothing removes a repeated pair: a generator appends its
  links to the stored lists. After one generator call on an empty link table (1D-driven,
  or 2D-driven in the intersecting mode) and any sequence of removals that return, no
  pair of a 1D node id and a 2D face id occurs twice.
\<close>

theorem one_generation_pairs_unique:
  assumes "generate_1d_to_2d query mesh1d centers2d boundaries max_distance
             \<lparr>nodes1d = [], faces2d = []\<rparr> = Inr links \<or>
           generate_2d_to_1d query find_nearest_branch mesh1d centers2d boundaries max_distance True
             \<lparr>nodes1d = [], faces2d = []\<rparr> = Inr links"
    and "removals query mesh1d centers2d ops links = Inr links'"
  shows "distinct (link_table links')"
proof -
  have "length (nodes1d links) = length (faces2d links) \<and> distinct (link_table links)"
    using assms(1) generate_1d_to_2d_unique generate_2d_to_1d_unique by blast
  then show ?thesis
    using removals_removes [OF assms(2)] subseq_distinct by blast
qed

definition line_mesh :: mesh1d_geom where
  "line_mesh = \<lparr>mesh_nodes = [(0, 0), (1, 0), (2, 0), (3, 0)], edge_nodes = [(1, 2), (2, 3), (3, 4)]\<rparr>"

definition line_query :: kd_query where
  "line_query pts p = (0, nat \<lfloor>fst p\<rfloor>)"

lemma line_mesh_generate:
  "generate_1d_to_2d line_query line_mesh [(0, 0), (1, 0), (2, 0), (3, 0)] [] None
       \<lparr>nodes1d = [], faces2d = []\<rparr> =
     Inr \<lparr>nodes1d = [1, 2, 3, 4], faces2d = [1, 2, 3, 4]\<rparr>"
  by code_simp

lemma line_mesh_remove_link:
  "remove_1d2d_link line_mesh [(0, 0), (1, 0), (2, 0), (3, 0)] 1 0 Mesh1d (1 / 2)
       \<lparr>nodes1d = [1, 2, 3, 4], faces2d = [1, 2, 3, 4]\<rparr> =
     Inr \<lparr>nodes1d = [1, 3, 4], faces2d = [1, 3, 4]\<rparr>"
proof -
  have d: "dists_to (mesh_nodes line_mesh) 1 0 = [1, 0, 1, 2]"
    by (simp add: dists_to_def line_mesh_def)
  have m: "Min (set [1, 0, 1, 2 :: real]) = 0" by simp
  have i: "argmin [1, 0, 1, 2 :: real] = 1" by (simp add: argmin_def list_index_def)
  have "remove_link_all True [2] \<lparr>nodes1d = [1, 2, 3, 4], faces2d = [1, 2, 3, 4]\<rparr> =
          Inr \<lparr>nodes1d = [1, 3, 4], faces2d = [1, 3, 4]\<rparr>"
    by code_simp
  then show ?thesis
    by (simp add: remove_1d2d_link_def remove_nearest_def d m i)
qed

lemma line_mesh_boundary:
  "check_boundary_link line_query line_mesh (3, 0) \<lparr>nodes1d = [1, 3, 4], faces2d = [1, 3, 4]\<rparr> =
     Inr \<lparr>nodes1d = [1], faces2d = [1]\<rparr>"
  by code_simp

lemma line_mesh_removals:
  "removals line_query line_mesh [(0, 0), (1, 0), (2, 0), (3, 0)]
       [RemoveLink 1 0 Mesh1d (1 / 2), BoundaryCheck (3, 0)]
       \<lparr>nodes1d = [1, 2, 3, 4], faces2d = [1, 2, 3, 4]\<rparr> =
     Inr \<lparr>nodes1d = [1], faces2d = [1]\<rparr>"
  by (simp add: line_mesh_remove_link line_mesh_boundary)

theorem one_generation_pairs_unique_witness:
  "generate_1d_to_2d line_query line_mesh [(0, 0), (1, 0), (2, 0), (3, 0)] [] None
       \<lparr>nodes1d = [], faces2d = []\<rparr> =
     Inr \<lparr>nodes1d = [1, 2, 3, 4], faces2d = [1, 2, 3, 4]\<rparr> \<and>
   removals line_query line_mesh [(0, 0), (1, 0), (2, 0), (3, 0)]
       [RemoveLink 1 0 Mesh1d (1 / 2), BoundaryCheck (3, 0)]
       \<lparr>nodes1d = [1, 2, 3, 4], faces2d = [1, 2, 3, 4]\<rparr> =
     Inr \<lparr>nodes1d = [1], faces2d = [1]\<rparr> \<and>
   distinct (link_table \<lparr>nodes1d = [1], faces2d = [1]\<rparr>)"
  using one_generation_pairs_unique [OF disjI1 [OF line_mesh_generate] line_mesh_removals]
    line_mesh_generate line_mesh_removals by simp

text \<open>
  Two generator calls in a row on the same meshes: the second appends the link \<open>(1, 1)\<close>
  again.
\<close>

theorem repeated_generation_counterexample:
  "generate_1d_to_2d (\<lambda>pts p. (7, 0)) \<lparr>mesh_nodes = [(0, 0)], edge_nodes = []\<rparr> [(7, 0)] [] None
       \<lparr>nodes1d = [], faces2d = []\<rparr> = Inr \<lparr>nodes1d = [1], faces2d = [1]\<rparr> \<and>
   generate_1d_to_2d (\<lambda>pts p. (7, 0)) \<lparr>mesh_nodes = [(0, 0)], edge_nodes = []\<rparr> [(7, 0)] [] None
       \<lparr>nodes1d = [1], faces2d = [1]\<rparr> = Inr \<lparr>nodes1d = [1, 1], faces2d = [1, 1]\<rparr> \<and>
   \<not> distinct (link_table \<lparr>nodes1d = [1, 1], faces2d = [1, 1]\<rparr>)"
proof -
  have "generate_1d_to_2d (\<lambda>pts p. (7, 0)) \<lparr>mesh_nodes = [(0, 0)], edge_nodes = []\<rparr> [(7, 0)] [] None
       \<lparr>nodes1d = [], faces2d = []\<rparr> = Inr \<lparr>nodes1d = [1], faces2d = [1]\<rparr>"
    by code_simp
  moreover have "generate_1d_to_2d (\<lambda>pts p. (7, 0)) \<lparr>mesh_nodes = [(0, 0)], edge_nodes = []\<rparr> [(7, 0)] [] None
       \<lparr>nodes1d = [1], faces2d = [1]\<rparr> = Inr \<lparr>nodes1d = [1, 1], faces2d = [1, 1]\<rparr>"
    by code_simp
  ultimately show ?thesis by (simp add: link_table_def)
qed

subsection \<open>The nearest mode of the 2D-driven generator\<close>

lemma np_take_length: "np_take xs ids = Inr ys \<Longrightarrow> length ys = length ids"
  by (induction ids arbitrary: ys) (auto split: sum.splits)

lemma get_1d2dlinks_rows:
  assumes "get_1d2dlinks mesh1d centers2d links True = Inr (Some (LinksFrame rows))"
  shows "rows \<noteq> []"
proof -
  from assms have ne: "nodes1d links \<noteq> []"
    by (auto simp: get_1d2dlinks_def split: if_splits)
  from assms obtain from_xy to_xy where
    f: "np_take (mesh_nodes mesh1d) (map (\<lambda>n. n - 1) (nodes1d links)) = Inr from_xy" and
    t: "np_take centers2d (map (\<lambda>f. f - 1) (faces2d links)) = Inr to_xy" and
    len: "length from_xy = length to_xy" and
    rows: "rows = map (\<lambda>((n, f), line). (n, f, line))
                    (zip (zip (nodes1d links) (faces2d links)) (zip from_xy to_xy))"
    by (auto simp: get_1d2dlinks_def split: if_splits sum.splits)
  have "length from_xy = length (nodes1d links)" "length to_xy = length (faces2d links)"
    using np_take_length [OF f] np_take_length [OF t] by simp_all
  then have "length rows = length (nodes1d links)"
    using len rows by simp
  then show ?thesis using ne by auto
qed

text \<open>
  Claim C4 on the code. With \<^verbatim>\<open>intersecting=False\<close> the generator never returns a set of
  links: without a stored link \<^verbatim>\<open>get_1d2dlinks\<close> gives \<^verbatim>\<open>None\<close> and the loop header
  raises, and with one the first round of the loop calls the unbound name
  \<^verbatim>\<open>possibly_intersecting\<close>. One 1D node and one face already show it.
\<close>

theorem nearest_mode_raises:
  "isl (generate_2d_to_1d query find_nearest_branch mesh1d centers2d boundaries max_distance False links) \<and>
   generate_2d_to_1d (\<lambda>pts p. (7, 0)) (\<lambda>i md k. True) \<lparr>mesh_nodes = [(0, 0)], edge_nodes = []\<rparr> [(7, 0)] []
       None False \<lparr>nodes1d = [], faces2d = []\<rparr> = Inl NameError"
proof
  let ?r = "generate_2d_to_1d query find_nearest_branch mesh1d centers2d boundaries max_distance False links"
  obtain links' where
    r: "?r = (case get_1d2dlinks mesh1d centers2d links' True of
              Inl e \<Rightarrow> Inl e
            | Inr None \<Rightarrow> Inl AttributeError
            | Inr (Some (LinksArray lines)) \<Rightarrow> Inl AttributeError
            | Inr (Some (LinksFrame rows)) \<Rightarrow>
                (case crossing_loop rows [] of
                   Inl e \<Rightarrow> Inl e
                 | Inr todrop \<Rightarrow>
                     (let kept = map snd (filter (\<lambda>(k, row). k \<notin> set todrop)
                                   (zip [0..<length rows] rows))
                      in boundary_loop query mesh1d boundaries
                           \<lparr>nodes1d = map (\<lambda>(n, f, line). n) kept,
                            faces2d = map (\<lambda>(n, f, line). f) kept\<rparr>)))"
    by (simp add: generate_2d_to_1d_def Let_def)
  show "isl ?r"
  proof (cases "get_1d2dlinks mesh1d centers2d links' True")
    case (Inl e)
    then show ?thesis using r by simp
  next
    case (Inr res)
    show ?thesis
    proof (cases res)
      case None
      then show ?thesis using r Inr by simp
    next
      case (Some export)
      show ?thesis
      proof (cases export)
        case (LinksArray lines)
        then show ?thesis using r Inr Some by simp
      next
        case (LinksFrame rows)
        then have "rows \<noteq> []" using get_1d2dlinks_rows Inr Some by blast
        then obtain row rest where "rows = row # rest" by (cases rows) auto
        then show ?thesis using r Inr Some LinksFrame by simp
      qed
    qed
  qed
next
  show "generate_2d_to_1d (\<lambda>pts p. (7, 0)) (\<lambda>i md k. True) \<lparr>mesh_nodes = [(0, 0)], edge_nodes = []\<rparr> [(7, 0)] []
       None False \<lparr>nodes1d = [], faces2d = []\<rparr> = Inl NameError"
    by code_simp
qed

section \<open>Network nodes\<close>

text \<open>
  The lists that the loop over the branches in \<^verbatim>\<open>Network.generate_1dnetwork\<close> fills:
  \<open>nodes\<close> (the network nodes, in the order of their ids), the dictionary
  \<open>edge_nodes_dict\<close> from an end point to the id of its mesh node (an association list,
  the newest entry first), and the edge and mesh node tables. The names of the mesh
  nodes (formatted offsets) are left out.
\<close>

record network_state =
  nodes :: "point list"
  edge_nodes_dict :: "(point \<times> int) list"
  network_edge_nodes :: "(int \<times> int) list"
  mesh1d_edge_nodes :: "(int \<times> int) list"
  mesh1d_branchidx :: "int list"
  mesh1d_branchoffset :: "real list"

text \<open>
  The first half of a round, "network edge node administration": the two end points of
  the branch are looked up in \<open>nodes\<close> and appended when new (\<open>register_point\<close>), the
  offsets lose the ends
  that are present already (and get the midpoint when none is left), and a branch whose
  two ends get the same node id is refused as a ring. The record holds the local
  variables the second half reads.
\<close>

record node_admin =
  admin_nodes :: "point list"
  first_present :: bool
  last_present :: bool
  admin_offsets :: "real list"
  nlinks :: int
  i_from :: int
  i_to :: int

definition register_point :: "point list \<Rightarrow> point \<Rightarrow> point list" where
  "register_point ns p = (if p \<in> set ns then ns else ns @ [p])"

definition network_node_admin ::
  "point list \<Rightarrow> point \<Rightarrow> point \<Rightarrow> real list \<Rightarrow> real \<Rightarrow> py_error + node_admin"
where
  "network_node_admin nodes0 first_point last_point offsets0 branch_length =
     (let nlinks0 = int (length offsets0) - 1;
          first_there = (first_point \<in> set nodes0);
          nodes1 = register_point nodes0 first_point;
          offsets1 = (if first_there then drop 1 offsets0 else offsets0);
          last_there = (last_point \<in> set nodes1);
          nodes2 = register_point nodes1 last_point;
          offsets2 = (if last_there then butlast offsets1 else offsets1);
          from_id = int (list_index nodes2 first_point) + 1;
          to_id = int (list_index nodes2 last_point) + 1
      in if from_id = to_id then Inl ValueError
         else Inr \<lparr>admin_nodes = nodes2, first_present = first_there, last_present = last_there,
                   admin_offsets = (if offsets2 = [] then [branch_length / 2] else offsets2),
                   nlinks = (if offsets2 = [] then nlinks0 + 1 else nlinks0),
                   i_from = from_id, i_to = to_id\<rparr>)"

text \<open>
  The second half, "mesh1d edge node administration": the new edges, with the first and
  the last edge tied to the mesh node of an end point that was present, or the end
  point entered in the dictionary. \<^verbatim>\<open>new_edge_nodes[0]\<close> raises when there is no link.
\<close>

definition mesh_edge_admin ::
  "(point \<times> int) list \<Rightarrow> nat \<Rightarrow> point \<Rightarrow> point \<Rightarrow> node_admin
     \<Rightarrow> py_error + (int \<times> int) list \<times> (point \<times> int) list"
where
  "mesh_edge_admin dict0 n_mesh_nodes first_point last_point adm =
     (let start_index = int n_mesh_nodes + 1 - (if first_present adm then 1 else 0);
          new_edge_nodes = map (\<lambda>i. (start_index + int i, start_index + int i + 1))
                             [0..<nat (nlinks adm)]
      in if new_edge_nodes = [] then Inl IndexError
         else
           (case (if first_present adm
                  then (case map_of dict0 first_point of
                          None \<Rightarrow> Inl KeyError
                        | Some v \<Rightarrow> Inr (new_edge_nodes[0 := (v, snd (new_edge_nodes ! 0))], dict0))
                  else Inr (new_edge_nodes, (first_point, fst (new_edge_nodes ! 0)) # dict0)) of
              Inl e \<Rightarrow> Inl e
            | Inr (edges1, dict1) \<Rightarrow>
                (if last_present adm
                 then (case map_of dict1 last_point of
                         None \<Rightarrow> Inl KeyError
                       | Some v \<Rightarrow>
                           Inr (edges1[length edges1 - 1 := (fst (last edges1), v)], dict1))
                 else Inr (edges1, (last_point, snd (last edges1)) # dict1))))"

text \<open>
  One round of the loop, for the branch with position \<open>i_branch\<close> among the branches
  sorted by length. \<^verbatim>\<open>points[0]\<close> raises on a line without coordinates and
  \<^verbatim>\<open>self.offsets[branch.Index]\<close> on a branch without offsets.
\<close>

definition add_branch ::
  "offsets_dict \<Rightarrow> nat \<Rightarrow> branch \<Rightarrow> network_state \<Rightarrow> py_error + network_state"
where
  "add_branch offsets_of i_branch branch st =
     (case coords branch of
        [] \<Rightarrow> Inl IndexError
      | first_point # other_points \<Rightarrow>
          (case offsets_of (Index branch) of
             None \<Rightarrow> Inl KeyError
           | Some offsets0 \<Rightarrow>
               (case network_node_admin (nodes st) first_point (last (coords branch)) offsets0
                       (geom_length branch) of
                  Inl e \<Rightarrow> Inl e
                | Inr adm \<Rightarrow>
                    (case mesh_edge_admin (edge_nodes_dict st) (length (mesh1d_branchidx st))
                            first_point (last (coords branch)) adm of
                       Inl e \<Rightarrow> Inl e
                     | Inr (new_edge_nodes, dict') \<Rightarrow>
                         Inr \<lparr>nodes = admin_nodes adm,
                              edge_nodes_dict = dict',
                              network_edge_nodes = network_edge_nodes st @ [(i_from adm, i_to adm)],
                              mesh1d_edge_nodes = mesh1d_edge_nodes st @ new_edge_nodes,
                              mesh1d_branchidx = mesh1d_branchidx st
                                @ replicate (length (admin_offsets adm)) (int i_branch + 1),
                              mesh1d_branchoffset = mesh1d_branchoffset st @ admin_offsets adm\<rparr>))))"

fun network_loop ::
  "offsets_dict \<Rightarrow> nat \<Rightarrow> branch list \<Rightarrow> network_state \<Rightarrow> py_error + network_state"
where
  "network_loop offsets_of i_branch [] st = Inr st"
| "network_loop offsets_of i_branch (branch # rest) st =
     (case add_branch offsets_of i_branch branch st of
        Inl e \<Rightarrow> Inl e
      | Inr st' \<Rightarrow> network_loop offsets_of (i_branch + 1) rest st')"

definition empty_network :: network_state where
  "empty_network = \<lparr>nodes = [], edge_nodes_dict = [], network_edge_nodes = [],
     mesh1d_edge_nodes = [], mesh1d_branchidx = [], mesh1d_branchoffset = []\<rparr>"

definition two_branches :: "branch list" where
  "two_branches =
     [\<lparr>Index = ''a'', coords = [(0, 10), (10, 10)], geom_length = 10\<rparr>,
      \<lparr>Index = ''b'', coords = [(10, 10), (10, 0)], geom_length = 10\<rparr>]"


subsection \<open>The node list holds every end point once\<close>

definition ends :: "branch \<Rightarrow> point list" where
  "ends b = [hd (coords b), last (coords b)]"

lemma register_point_set: "set (register_point ns p) = insert p (set ns)"
  by (auto simp: register_point_def)

lemma register_point_distinct: "distinct ns \<Longrightarrow> distinct (register_point ns p)"
  by (simp add: register_point_def)

lemma network_node_admin_nodes:
  assumes "network_node_admin nodes0 first_point last_point offsets0 branch_length = Inr adm"
  shows "first_point \<noteq> last_point \<and>
         set (admin_nodes adm) = set nodes0 \<union> {first_point, last_point} \<and>
         (distinct nodes0 \<longrightarrow> distinct (admin_nodes adm))"
proof -
  let ?nodes2 = "register_point (register_point nodes0 first_point) last_point"
  have adm: "admin_nodes adm = ?nodes2 \<and> first_point \<noteq> last_point"
  proof (cases "int (list_index ?nodes2 first_point) + 1 = int (list_index ?nodes2 last_point) + 1")
    case True
    then have "network_node_admin nodes0 first_point last_point offsets0 branch_length = Inl ValueError"
      unfolding network_node_admin_def Let_def by (simp only: True [THEN eqTrueI] if_True)
    with assms show ?thesis by simp
  next
    case False
    then have "first_point \<noteq> last_point" by auto
    moreover have "map_sum id admin_nodes
                     (network_node_admin nodes0 first_point last_point offsets0 branch_length) =
                   Inr ?nodes2"
      unfolding network_node_admin_def Let_def
      by (simp only: False if_False map_sum.simps node_admin.select_convs)
    ultimately show ?thesis using assms by simp
  qed
  moreover have "set ?nodes2 = set nodes0 \<union> {first_point, last_point}"
    by (auto simp: register_point_set)
  moreover have "distinct nodes0 \<longrightarrow> distinct ?nodes2"
    by (simp add: register_point_distinct)
  ultimately show ?thesis by simp
qed

lemma add_branch_nodes:
  assumes "add_branch offsets_of i_branch b st = Inr st'"
  shows "hd (coords b) \<noteq> last (coords b) \<and>
         set (nodes st') = set (nodes st) \<union> set (ends b) \<and>
         (distinct (nodes st) \<longrightarrow> distinct (nodes st'))"
proof -
  from assms obtain first_point other_points where c: "coords b = first_point # other_points"
    by (cases "coords b") (auto simp: add_branch_def)
  from assms c obtain offsets0 where o: "offsets_of (Index b) = Some offsets0"
    by (auto simp: add_branch_def split: option.splits)
  from assms c o obtain adm where
    adm: "network_node_admin (nodes st) first_point (last (coords b)) offsets0 (geom_length b) = Inr adm"
    by (auto simp: add_branch_def split: sum.splits)
  from assms c o adm have n: "nodes st' = admin_nodes adm"
    by (auto simp: add_branch_def split: sum.splits)
  have "hd (coords b) = first_point" using c by simp
  then show ?thesis
    using network_node_admin_nodes [OF adm] n by (simp add: ends_def)
qed

lemma network_loop_nodes:
  "network_loop offsets_of i_branch bs st = Inr st' \<Longrightarrow> distinct (nodes st) \<Longrightarrow>
     distinct (nodes st') \<and> set (nodes st') = set (nodes st) \<union> set (concat (map ends bs)) \<and>
     (\<forall>b\<in>set bs. hd (coords b) \<noteq> last (coords b))"
proof (induction bs arbitrary: i_branch st)
  case Nil
  then show ?case by simp
next
  case (Cons b bs)
  from Cons.prems(1) obtain mid where
    first: "add_branch offsets_of i_branch b st = Inr mid" and
    rest: "network_loop offsets_of (i_branch + 1) bs mid = Inr st'"
    by (auto split: sum.splits)
  have m: "set (nodes mid) = set (nodes st) \<union> set (ends b)" "distinct (nodes mid)"
    "hd (coords b) \<noteq> last (coords b)"
    using add_branch_nodes [OF first] Cons.prems(2) by simp_all
  have "distinct (nodes st')" "set (nodes st') = set (nodes mid) \<union> set (concat (map ends bs))"
    "\<forall>b\<in>set bs. hd (coords b) \<noteq> last (coords b)"
    using Cons.IH [OF rest m(2)] by simp_all
  then show ?case using m(1,3) by (simp add: Un_assoc)
qed

subsection \<open>The loop returns on branches that are no rings\<close>

text \<open>
  A branch is well formed for the loop when its line has coordinates, its two ends
  differ, and its offsets are at least two (what \<^verbatim>\<open>_generate_1d_spacing\<close> returns has the
  first and the last anchor). The loop keeps the keys of \<open>edge_nodes_dict\<close> equal to the
  node list, so the lookups of present end points succeed.
\<close>

lemma list_index_nth: "x \<in> set xs \<Longrightarrow> xs ! list_index xs x = x"
  unfolding list_index_def by (induction xs) auto

lemma list_index_eq:
  assumes "x \<in> set xs" and "y \<in> set xs" and "list_index xs x = list_index xs y"
  shows "x = y"
proof -
  have "x = xs ! list_index xs x" using list_index_nth [OF assms(1)] by (rule sym)
  also have "\<dots> = xs ! list_index xs y" by (simp only: assms(3))
  also have "\<dots> = y" using assms(2) by (rule list_index_nth)
  finally show ?thesis .
qed

lemma network_node_admin_returns:
  assumes "first_point \<noteq> last_point" and "2 \<le> length offsets0"
  shows "\<exists>adm. network_node_admin nodes0 first_point last_point offsets0 branch_length = Inr adm \<and>
           admin_nodes adm = register_point (register_point nodes0 first_point) last_point \<and>
           first_present adm = (first_point \<in> set nodes0) \<and>
           last_present adm = (last_point \<in> set nodes0) \<and>
           1 \<le> nlinks adm"
proof -
  let ?nodes2 = "register_point (register_point nodes0 first_point) last_point"
  have "first_point \<in> set ?nodes2" "last_point \<in> set ?nodes2"
    by (simp_all add: register_point_set)
  then have "list_index ?nodes2 first_point \<noteq> list_index ?nodes2 last_point"
    using list_index_eq assms(1) by metis
  moreover have "(last_point \<in> set (register_point nodes0 first_point)) = (last_point \<in> set nodes0)"
    using assms(1) by (auto simp: register_point_set)
  ultimately show ?thesis
    using assms(2) by (simp add: network_node_admin_def Let_def)
qed

lemma mesh_edge_admin_returns:
  assumes "1 \<le> nlinks adm"
    and "first_present adm \<longrightarrow> first_point \<in> fst ` set dict0"
    and "last_present adm \<longrightarrow> last_point \<in> fst ` set dict0"
  shows "\<exists>edges dict'. mesh_edge_admin dict0 n first_point last_point adm = Inr (edges, dict') \<and>
           fst ` set dict' = fst ` set dict0
             \<union> (if first_present adm then {} else {first_point})
             \<union> (if last_present adm then {} else {last_point})"
proof -
  let ?start = "int n + 1 - (if first_present adm then 1 else 0)"
  let ?new = "map (\<lambda>i. (?start + int i, ?start + int i + 1)) [0..<nat (nlinks adm)]"
  have ne: "?new \<noteq> []" using assms(1) by simp
  obtain edges1 dict1 where
    first: "(if first_present adm
             then (case map_of dict0 first_point of
                     None \<Rightarrow> Inl KeyError
                   | Some v \<Rightarrow> Inr (?new[0 := (v, snd (?new ! 0))], dict0))
             else Inr (?new, (first_point, fst (?new ! 0)) # dict0)) = Inr (edges1, dict1)" and
    keys1: "fst ` set dict1 = fst ` set dict0 \<union> (if first_present adm then {} else {first_point})"
  proof (cases "first_present adm")
    case True
    then obtain v where "map_of dict0 first_point = Some v"
      using assms(2) by (metis map_of_eq_None_iff not_Some_eq)
    then show ?thesis using True that by simp
  next
    case False
    then show ?thesis using that by simp
  qed
  obtain edges2 dict2 where
    last: "(if last_present adm
            then (case map_of dict1 last_point of
                    None \<Rightarrow> Inl KeyError
                  | Some v \<Rightarrow> Inr (edges1[length edges1 - 1 := (fst (last edges1), v)], dict1))
            else Inr (edges1, (last_point, snd (last edges1)) # dict1)) = Inr (edges2, dict2)" and
    keys2: "fst ` set dict2 = fst ` set dict1 \<union> (if last_present adm then {} else {last_point})"
  proof (cases "last_present adm")
    case True
    then have "last_point \<in> fst ` set dict1" using assms(3) keys1 by simp
    then obtain v where "map_of dict1 last_point = Some v"
      by (metis map_of_eq_None_iff not_Some_eq)
    then show ?thesis using True that by simp
  next
    case False
    then show ?thesis using that by simp
  qed
  have "mesh_edge_admin dict0 n first_point last_point adm = Inr (edges2, dict2)"
    unfolding mesh_edge_admin_def Let_def using ne first last by simp
  then show ?thesis using keys1 keys2 by auto
qed

definition well_formed :: "offsets_dict \<Rightarrow> branch \<Rightarrow> bool" where
  "well_formed offsets_of b =
     (coords b \<noteq> [] \<and> hd (coords b) \<noteq> last (coords b) \<and>
      (case offsets_of (Index b) of None \<Rightarrow> False | Some offsets \<Rightarrow> 2 \<le> length offsets))"

lemma add_branch_returns:
  assumes "well_formed offsets_of b" and "fst ` set (edge_nodes_dict st) = set (nodes st)"
  shows "\<exists>st'. add_branch offsets_of i_branch b st = Inr st' \<and>
           fst ` set (edge_nodes_dict st') = set (nodes st')"
proof -
  from assms(1) obtain first_point other_points offsets0 where
    c: "coords b = first_point # other_points" and
    ring: "first_point \<noteq> last (coords b)" and
    o: "offsets_of (Index b) = Some offsets0" and len: "2 \<le> length offsets0"
    by (cases "coords b") (auto simp: well_formed_def split: option.splits)
  let ?last = "last (coords b)"
  obtain adm where
    adm: "network_node_admin (nodes st) first_point ?last offsets0 (geom_length b) = Inr adm" and
    a: "admin_nodes adm = register_point (register_point (nodes st) first_point) ?last"
       "first_present adm = (first_point \<in> set (nodes st))"
       "last_present adm = (?last \<in> set (nodes st))" "1 \<le> nlinks adm"
    using network_node_admin_returns [OF ring len] by blast
  have "first_present adm \<longrightarrow> first_point \<in> fst ` set (edge_nodes_dict st)"
    "last_present adm \<longrightarrow> ?last \<in> fst ` set (edge_nodes_dict st)"
    using a(2,3) assms(2) by simp_all
  from mesh_edge_admin_returns [OF a(4) this, of "length (mesh1d_branchidx st)"]
  obtain edges dict' where
    e: "mesh_edge_admin (edge_nodes_dict st) (length (mesh1d_branchidx st)) first_point ?last adm =
          Inr (edges, dict')" and
    k: "fst ` set dict' = fst ` set (edge_nodes_dict st)
             \<union> (if first_present adm then {} else {first_point})
             \<union> (if last_present adm then {} else {?last})"
    by blast
  have "fst ` set dict' = set (admin_nodes adm)"
    using k a(1,2,3) assms(2) by (auto simp: register_point_set)
  then show ?thesis
    using c o adm e by (simp add: add_branch_def)
qed

lemma network_loop_returns:
  "\<forall>b\<in>set bs. well_formed offsets_of b \<Longrightarrow> fst ` set (edge_nodes_dict st) = set (nodes st) \<Longrightarrow>
     \<exists>st'. network_loop offsets_of i_branch bs st = Inr st'"
proof (induction bs arbitrary: i_branch st)
  case Nil
  then show ?case by simp
next
  case (Cons b bs)
  then obtain mid where
    first: "add_branch offsets_of i_branch b st = Inr mid" and
    keys: "fst ` set (edge_nodes_dict mid) = set (nodes mid)"
    using add_branch_returns [of offsets_of b st i_branch] by auto
  have "\<forall>b\<in>set bs. well_formed offsets_of b" using Cons.prems(1) by simp
  from Cons.IH [OF this keys, of "i_branch + 1"] first show ?case by simp
qed

lemma ends_length: "length (concat (map ends bs)) = 2 * length bs"
  by (induction bs) (simp_all add: ends_def)

text \<open>
  Claim C6. When the loop over the branches returns, every end point of a branch is in
  the node list exactly once, and no branch is a ring. So the number of nodes is at most
  twice the number of branches, with equality exactly when the end points of all
  branches are pairwise different (no two branches share one), and two branches whose
  four end points take three different values give three nodes. The loop returns
  whenever every branch is well formed.
\<close>

theorem network_nodes_once:
  "(network_loop offsets_of 0 branches empty_network = Inr st \<longrightarrow>
      distinct (nodes st) \<and>
      set (nodes st) = set (concat (map ends branches)) \<and>
      (\<forall>b\<in>set branches. hd (coords b) \<noteq> last (coords b)) \<and>
      length (nodes st) \<le> 2 * length branches \<and>
      (length (nodes st) = 2 * length branches \<longleftrightarrow> distinct (concat (map ends branches))) \<and>
      (\<forall>b1 b2. branches = [b1, b2] \<and> card (set (ends b1) \<union> set (ends b2)) = 3 \<longrightarrow>
         length (nodes st) = 3)) \<and>
   ((\<forall>b\<in>set branches. well_formed offsets_of b) \<longrightarrow>
      (\<exists>st'. network_loop offsets_of 0 branches empty_network = Inr st'))"
proof (intro conjI impI)
  let ?E = "concat (map ends branches)"
  assume run: "network_loop offsets_of 0 branches empty_network = Inr st"
  have "distinct (nodes empty_network)" by (simp add: empty_network_def)
  from network_loop_nodes [OF run this]
  have d: "distinct (nodes st)" and s: "set (nodes st) = set ?E"
    and r: "\<forall>b\<in>set branches. hd (coords b) \<noteq> last (coords b)"
    by (simp_all add: empty_network_def)
  have len: "length (nodes st) = card (set ?E)"
    using d s distinct_card by metis
  show "distinct (nodes st)" by (rule d)
  show "set (nodes st) = set ?E" by (rule s)
  show "\<forall>b\<in>set branches. hd (coords b) \<noteq> last (coords b)" by (rule r)
  show "length (nodes st) \<le> 2 * length branches"
    using len card_length [of ?E] by (simp add: ends_length)
  show "length (nodes st) = 2 * length branches \<longleftrightarrow> distinct ?E"
    using len card_distinct [of ?E] distinct_card [of ?E] by (auto simp: ends_length)
  show "\<forall>b1 b2. branches = [b1, b2] \<and> card (set (ends b1) \<union> set (ends b2)) = 3 \<longrightarrow>
            length (nodes st) = 3"
    using len by auto
next
  assume "\<forall>b\<in>set branches. well_formed offsets_of b"
  moreover have "fst ` set (edge_nodes_dict empty_network) = set (nodes empty_network)"
    by (simp add: empty_network_def)
  ultimately show "\<exists>st'. network_loop offsets_of 0 branches empty_network = Inr st'"
    by (rule network_loop_returns)
qed

lemma two_branches_network:
  "network_loop [''a'' \<mapsto> [0, 10], ''b'' \<mapsto> [0, 10]] 0 two_branches empty_network =
     Inr \<lparr>nodes = [(0, 10), (10, 10), (10, 0)],
          edge_nodes_dict = [((10, 0), 3), ((10, 10), 2), ((0, 10), 1)],
          network_edge_nodes = [(1, 2), (2, 3)],
          mesh1d_edge_nodes = [(1, 2), (2, 3)],
          mesh1d_branchidx = [1, 1, 2],
          mesh1d_branchoffset = [0, 10, 10]\<rparr>"
  by code_simp

theorem network_nodes_once_witness:
  "network_loop [''a'' \<mapsto> [0, 10], ''b'' \<mapsto> [0, 10]] 0 two_branches empty_network =
     Inr \<lparr>nodes = [(0, 10), (10, 10), (10, 0)],
          edge_nodes_dict = [((10, 0), 3), ((10, 10), 2), ((0, 10), 1)],
          network_edge_nodes = [(1, 2), (2, 3)],
          mesh1d_edge_nodes = [(1, 2), (2, 3)],
          mesh1d_branchidx = [1, 1, 2],
          mesh1d_branchoffset = [0, 10, 10]\<rparr> \<and>
   distinct [(0, 10), (10, 10), (10 :: real, 0 :: real)] \<and>
   length [(0, 10), (10, 10), (10 :: real, 0 :: real)] \<le> 2 * length two_branches \<and>
   \<not> distinct (concat (map ends two_branches)) \<and>
   list_all (well_formed [''a'' \<mapsto> [0, 10], ''b'' \<mapsto> [0, 10]]) two_branches"
proof -
  note t = network_nodes_once [of "[''a'' \<mapsto> [0, 10], ''b'' \<mapsto> [0, 10]]" two_branches
      "\<lparr>nodes = [(0, 10), (10, 10), (10, 0)],
          edge_nodes_dict = [((10, 0), 3), ((10, 10), 2), ((0, 10), 1)],
          network_edge_nodes = [(1, 2), (2, 3)],
          mesh1d_edge_nodes = [(1, 2), (2, 3)],
          mesh1d_branchidx = [1, 1, 2],
          mesh1d_branchoffset = [0, 10, 10]\<rparr>"]
  from t two_branches_network
  have "distinct [(0, 10), (10, 10), (10 :: real, 0 :: real)]"
    and "length [(0, 10), (10, 10), (10 :: real, 0 :: real)] \<le> 2 * length two_branches"
    and "(length [(0, 10), (10, 10), (10 :: real, 0 :: real)] = 2 * length two_branches) =
           distinct (concat (map ends two_branches))"
    by simp_all
  moreover have "length two_branches = 2" by (simp add: two_branches_def)
  moreover have "list_all (well_formed [''a'' \<mapsto> [0, 10], ''b'' \<mapsto> [0, 10]]) two_branches"
    by (simp add: two_branches_def well_formed_def)
  ultimately show ?thesis using two_branches_network by simp
qed

end
